theory Spec2Isabelle
  imports Complex_Main "HOL-Library.Multiset"
begin

section \<open>Data model of range\_filter\_tree.h\<close>

text \<open>
  Sizes and indices (\<open>size_t\<close>) are natural numbers. Index counts fit \<open>index_type = int32_t\<close>,
  so sums and products of sizes never reach \<open>2 ^ 64\<close>; the one operation that can wrap
  on inputs the code really receives is the subtraction of two window bounds, which is
  written out modulo \<open>2 ^ 64\<close> (\<open>size_t_sub\<close>), together with the multiplication by four
  that follows it in \<open>optimized_postfiltering_search\<close>.
\<close>

definition size_t_sub :: "nat \<Rightarrow> nat \<Rightarrow> nat" where
  "size_t_sub a b = (a + 2 ^ 64 - b mod 2 ^ 64) mod 2 ^ 64"

definition size_t_mul :: "nat \<Rightarrow> nat \<Rightarrow> nat" where
  "size_t_mul a b = (a * b) mod 2 ^ 64"

definition size_t_of_int :: "int \<Rightarrow> nat" where
  "size_t_of_int c = nat (c mod 2 ^ 64)"

text \<open>
  A C++ \<open>float\<close>: the finite values as reals, the two infinities and NaN. The distances
  come from a kernel outside the sources and are taken as they are; the one float
  operation of this file, the division in \<open>optimized_postfiltering_search\<close>, is rounded
  by \<open>float_quotient\<close> below. \<open>flt_less\<close> is \<open>operator<\<close>: every comparison with NaN is
  false.
\<close>

datatype cfloat = Finite real | PosInf | NegInf | NaN

fun flt_less :: "cfloat \<Rightarrow> cfloat \<Rightarrow> bool" where
  "flt_less NaN y = False"
| "flt_less x NaN = False"
| "flt_less (Finite a) (Finite b) = (a < b)"
| "flt_less (Finite a) PosInf = True"
| "flt_less (Finite a) NegInf = False"
| "flt_less PosInf y = False"
| "flt_less NegInf NegInf = False"
| "flt_less NegInf y = True"

text \<open>\<open>std::numeric_limits<float>::max()\<close>, the largest finite float: \<open>2 ^ 128 - 2 ^ 104\<close>.\<close>

definition float_max :: cfloat where
  "float_max = Finite 340282346638528859811704183484516925440"

text \<open>
  What a call can end with instead of a value: a \<open>std::runtime_error\<close> with its message,
  the \<open>std::out_of_range\<close> of a checked \<open>.at()\<close>, and undefined behaviour (an unchecked
  read past the end of a container, \<open>front()\<close> of an emp sequence, an integer division
  by zero).
\<close>

datatype error = runtime_error string | out_of_range | undefined_behaviour

text \<open>A numpy array as the constructor inspects it: rank one, rank two, or any other rank.\<close>

datatype 'a array_t = Array1 "'a list" | Array2 "'a list list" | ArrayN nat

text \<open>
  Modelled from the spec: \<open>QueryParams\<close>, declared in \<open>algorithms/utils/types.h\<close>,
  which is not among the sources. The record holds the fields this file reads (\<open>k\<close>, \<open>verbose\<close>,
  \<open>min_query_to_bucket_ratio\<close>) and the eight it passes to the constructor call in
  \<open>three_split_search\<close>, in that call's order. \<open>QueryParams8\<close> is that eight-argument
  constructor; it is not given \<open>verbose\<close>, which it leaves at \<open>False\<close>. The optional
  \<open>min_query_to_bucket_ratio\<close> is a \<open>float\<close>, compared with the float ratio of
  \<open>optimized_postfiltering_search\<close>.
\<close>

record QueryParams =
  k :: nat
  beamSize :: nat
  cut :: real
  limit :: nat
  degree_limit :: nat
  final_beam_multiply :: real
  postfiltering_max_beam :: nat
  min_query_to_bucket_ratio :: "cfloat option"
  verbose :: bool

definition QueryParams8 ::
  "nat \<Rightarrow> nat \<Rightarrow> real \<Rightarrow> nat \<Rightarrow> nat \<Rightarrow> real \<Rightarrow> nat \<Rightarrow> cfloat option \<Rightarrow> QueryParams" where
  "QueryParams8 a1 a2 a3 a4 a5 a6 a7 a8 =
     \<lparr>k = a1, beamSize = a2, cut = a3, limit = a4, degree_limit = a5,
      final_beam_multiply = a6, postfiltering_max_beam = a7,
      min_query_to_bucket_ratio = a8, verbose = False\<rparr>"

text \<open>
  A per-bucket \<open>SpatialIndex\<close> is an external collaborator. The model keeps what the
  constructor hands to it: the sorted positions of its subset and their filter values.
  Its \<open>query\<close> is a parameter \<open>sq\<close> of the search functions.
\<close>

record 'f SpatialIndex =
  subset_of_indices :: "nat list"
  subset_of_filter_values :: "'f list"

type_synonym pid = "nat \<times> cfloat"

type_synonym 'f FilterRange = "'f \<times> 'f"

record ('t, 'f) RangeFilterTreeIndex =
  bucket_sizes :: "nat list"
  starts :: "nat list list"
  spatial_indices :: "'f SpatialIndex list list"
  sorted_index_to_original_point_id :: "nat list"
  filter_values :: "'f list"
  cutoff :: int
  points :: "'t list list"

text \<open>
  What a query does besides returning: the diagnostic of \<open>check_empty\<close>, the verbose
  line of \<open>optimized_postfiltering_search\<close>, and each call of a bucket's
  \<open>SpatialIndex::query\<close> with the level, the bucket, the filter range and the parameters
  it is given.
\<close>

datatype 'f event =
    OutOfRangeDiagnostic 'f 'f 'f 'f
  | VerboseContainingRange nat nat nat nat
  | SubIndexQuery nat nat "'f FilterRange" QueryParams

type_synonym ('f, 'a) run = "(error + 'a) \<times> 'f event list"

definition mret :: "'a \<Rightarrow> ('f, 'a) run" where
  "mret x = (Inr x, [])"

definition mthrow :: "error \<Rightarrow> ('f, 'a) run" where
  "mthrow err = (Inl err, [])"

definition memit :: "'f event \<Rightarrow> ('f, unit) run" where
  "memit ev = (Inr (), [ev])"

definition mbind :: "('f, 'a) run \<Rightarrow> ('a \<Rightarrow> ('f, 'b) run) \<Rightarrow> ('f, 'b) run" where
  "mbind m f =
     (case m of
        (Inl err, tr) \<Rightarrow> (Inl err, tr)
      | (Inr x, tr) \<Rightarrow> (case f x of (r, tr') \<Rightarrow> (r, tr @ tr')))"

text \<open>\<open>v[i]\<close> (unchecked) and \<open>v.at(i)\<close> (checked).\<close>

definition unchecked_read :: "'a list \<Rightarrow> nat \<Rightarrow> ('f, 'a) run" where
  "unchecked_read xs i = (if i < length xs then mret (xs ! i) else mthrow undefined_behaviour)"

definition checked_at :: "'a list \<Rightarrow> nat \<Rightarrow> ('f, 'a) run" where
  "checked_at xs i = (if i < length xs then mret (xs ! i) else mthrow out_of_range)"

fun run_all :: "('a \<Rightarrow> ('f, 'b) run) \<Rightarrow> 'a list \<Rightarrow> ('f, 'b list) run" where
  "run_all f [] = mret []"
| "run_all f (x # xs) = mbind (f x) (\<lambda>y. mbind (run_all f xs) (\<lambda>ys. mret (y # ys)))"

section \<open>The library sort\<close>

text \<open>
  \<open>parlay::sort_inplace\<close> belongs to a library outside the sources. It is a parameter of
  the model, of type \<open>'a sorter\<close>; what the program may rely on is \<open>sort_contract\<close>: for a
  comparison that is a strict weak order on the elements, the outcome is a rearrangement
  of the input in which no element is followed by a smaller one. The contract leaves the
  order of equivalent elements open.
\<close>

type_synonym 'a sorter = "('a \<Rightarrow> 'a \<Rightarrow> bool) \<Rightarrow> 'a list \<Rightarrow> 'a list"

definition strict_weak_on :: "'a set \<Rightarrow> ('a \<Rightarrow> 'a \<Rightarrow> bool) \<Rightarrow> bool" where
  "strict_weak_on A lt =
     ((\<forall>a \<in> A. \<forall>b \<in> A. lt a b \<longrightarrow> \<not> lt b a) \<and>
      (\<forall>a \<in> A. \<forall>b \<in> A. \<forall>c \<in> A. \<not> lt a b \<and> \<not> lt b c \<longrightarrow> \<not> lt a c))"

definition sort_contract :: "'a sorter \<Rightarrow> bool" where
  "sort_contract srt =
     (\<forall>lt xs. strict_weak_on (set xs) lt \<longrightarrow>
        mset (srt lt xs) = mset xs \<and> sorted_wrt (\<lambda>a b. \<not> lt b a) (srt lt xs))"


text \<open>
  Two sorts that meet \<open>sort_contract\<close>, for concrete runs: an insertion sort that keeps
  equivalent elements in their input order, and one that reverses them.
\<close>

fun insert_before :: "('a \<Rightarrow> 'a \<Rightarrow> bool) \<Rightarrow> 'a \<Rightarrow> 'a list \<Rightarrow> 'a list" where
  "insert_before lt x [] = [x]"
| "insert_before lt x (y # ys) =
     (if lt y x then y # insert_before lt x ys else x # y # ys)"

definition stable_insertion_sort :: "'a sorter" where
  "stable_insertion_sort lt xs = foldr (insert_before lt) xs []"

fun insert_after :: "('a \<Rightarrow> 'a \<Rightarrow> bool) \<Rightarrow> 'a \<Rightarrow> 'a list \<Rightarrow> 'a list" where
  "insert_after lt x [] = [x]"
| "insert_after lt x (y # ys) =
     (if lt x y then x # y # ys else y # insert_after lt x ys)"

definition reversing_insertion_sort :: "'a sorter" where
  "reversing_insertion_sort lt xs = foldr (insert_after lt) xs []"

section \<open>Construction\<close>

text \<open>The body of the bucket loop of the private constructor, for one bucket.\<close>

definition make_bucket :: "'f list \<Rightarrow> nat \<Rightarrow> nat \<Rightarrow> nat \<Rightarrow> 'f SpatialIndex" where
  "make_bucket fv n current_filter_size bucket_id =
     (let start = bucket_id * current_filter_size;
          this_filter_size = min current_filter_size (n - start)
      in \<lparr>subset_of_indices = map (\<lambda>i. i + start) [0..<this_filter_size],
          subset_of_filter_values = take this_filter_size (drop start fv)\<rparr>)"

text \<open>
  The level loop \<open>while (current_filter_size < 2 * n)\<close>. The accumulator holds
  \<open>_bucket_sizes\<close>, \<open>_starts\<close> and \<open>_spatial_indices\<close>. A width of zero makes
  \<open>num_buckets\<close> divide by zero.
\<close>

function level_loop ::
  "nat \<Rightarrow> 'f list \<Rightarrow> nat \<Rightarrow> nat list \<times> nat list list \<times> 'f SpatialIndex list list
     \<Rightarrow> error + (nat list \<times> nat list list \<times> 'f SpatialIndex list list)" where
  "level_loop n fv current_filter_size acc =
     (if current_filter_size < 2 * n then
        (if current_filter_size = 0 then Inl undefined_behaviour
         else
           (let num_buckets = (n + current_filter_size - 1) div current_filter_size
            in level_loop n fv (current_filter_size * 2)
                 (fst acc @ [current_filter_size],
                  fst (snd acc) @ [map (\<lambda>bucket_id. bucket_id * current_filter_size) [0..<num_buckets]],
                  snd (snd acc) @ [map (make_bucket fv n current_filter_size) [0..<num_buckets]])))
      else Inr acc)"
  by pat_completeness auto
termination
  by (relation "measure (\<lambda>(n, fv, current_filter_size, acc). 2 * n - current_filter_size)") auto

definition RangeFilterTreeIndex_private ::
  "'t list list \<Rightarrow> 'f list \<Rightarrow> nat list \<Rightarrow> int \<Rightarrow> error + ('t, 'f) RangeFilterTreeIndex" where
  "RangeFilterTreeIndex_private pts fv decoding c =
     (case level_loop (length pts) fv (size_t_of_int c) ([], [], []) of
        Inl err \<Rightarrow> Inl err
      | Inr acc \<Rightarrow>
          Inr \<lparr>bucket_sizes = fst acc, starts = fst (snd acc), spatial_indices = snd (snd acc),
               sorted_index_to_original_point_id = decoding, filter_values = fv,
               cutoff = c, points = pts\<rparr>)"

text \<open>
  The public constructor: the shape checks in the source's order, the sort of the
  indices \<open>0..n-1\<close> by filter value, the gather of the rows and of the filter values
  (a sorted index read past the input is undefined behaviour), then the private
  constructor.
\<close>

definition RangeFilterTreeIndex_public ::
  "nat sorter \<Rightarrow> 't array_t \<Rightarrow> ('f::linorder) array_t \<Rightarrow> int
     \<Rightarrow> error + ('t, 'f) RangeFilterTreeIndex" where
  "RangeFilterTreeIndex_public srt points_arr filter_arr c =
     (case points_arr of
        Array2 numpy_data \<Rightarrow>
          (case filter_arr of
             Array1 filter_values_seq \<Rightarrow>
               (let n = length numpy_data in
                if length filter_values_seq \<noteq> n
                then Inl (runtime_error
                  ''filter data numpy array must have the same number of elements as the points array'')
                else
                  (let filter_indices_sorted =
                         srt (\<lambda>i j. filter_values_seq ! i < filter_values_seq ! j) [0..<n]
                   in if length filter_indices_sorted < n then Inl out_of_range
                      else if \<not> list_all (\<lambda>i. i < n) (take n filter_indices_sorted)
                      then Inl undefined_behaviour
                      else
                        (let data_sorted =
                               map (\<lambda>sorted_id. numpy_data ! (filter_indices_sorted ! sorted_id)) [0..<n];
                             decoding =
                               map (\<lambda>sorted_id. filter_indices_sorted ! sorted_id) [0..<n];
                             filter_values_sorted =
                               map (\<lambda>i. filter_values_seq ! (filter_indices_sorted ! i)) [0..<n]
                         in RangeFilterTreeIndex_private data_sorted filter_values_sorted decoding c)))
           | _ \<Rightarrow> Inl (runtime_error ''filter data numpy array must be 1-dimensional''))
      | _ \<Rightarrow> Inl (runtime_error ''points numpy array must be 2-dimensional''))"

section \<open>Range resolution\<close>

text \<open>The two binary searches; \<open>start\<close> and \<open>en\<close> are the loop variables.\<close>

function first_greater_than_loop :: "('f::linorder) list \<Rightarrow> 'f \<Rightarrow> nat \<Rightarrow> nat \<Rightarrow> nat" where
  "first_greater_than_loop fv filter_value start en =
     (if start + 1 < en then
        (let mid = (start + en) div 2
         in if fv ! mid > filter_value
            then first_greater_than_loop fv filter_value start mid
            else first_greater_than_loop fv filter_value mid en)
      else en)"
  by pat_completeness auto
termination
  by (relation "measure (\<lambda>(fv, filter_value, start, en). en - start)") auto

definition first_greater_than :: "('f::linorder) list \<Rightarrow> 'f \<Rightarrow> nat" where
  "first_greater_than fv filter_value = first_greater_than_loop fv filter_value 0 (length fv)"

function first_greater_than_or_equal_to_loop ::
  "('f::linorder) list \<Rightarrow> 'f \<Rightarrow> nat \<Rightarrow> nat \<Rightarrow> nat" where
  "first_greater_than_or_equal_to_loop fv filter_value start en =
     (if start + 1 < en then
        (let mid = (start + en) div 2
         in if fv ! mid \<ge> filter_value
            then first_greater_than_or_equal_to_loop fv filter_value start mid
            else first_greater_than_or_equal_to_loop fv filter_value mid en)
      else en)"
  by pat_completeness auto
termination
  by (relation "measure (\<lambda>(fv, filter_value, start, en). en - start)") auto

definition first_greater_than_or_equal_to :: "('f::linorder) list \<Rightarrow> 'f \<Rightarrow> nat" where
  "first_greater_than_or_equal_to fv filter_value =
     first_greater_than_or_equal_to_loop fv filter_value 0 (length fv)"

section \<open>Query planning\<close>

definition check_empty ::
  "('t, 'f::linorder) RangeFilterTreeIndex \<Rightarrow> 'f FilterRange \<Rightarrow> ('f, bool) run" where
  "check_empty idx rng =
     (case filter_values idx of
        [] \<Rightarrow> mthrow undefined_behaviour
      | x # xs \<Rightarrow>
          (let front = x; back = last (x # xs);
               emp = (snd rng < front \<or> fst rng > back)
           in mbind (if emp
                     then memit (OutOfRangeDiagnostic front back (fst rng) (snd rng))
                     else mret ())
                (\<lambda>u. mret emp)))"

text \<open>
  The planning loop of \<open>fenwick_tree_search\<close>. Its state is \<open>indices_to_search\<close> and
  \<open>last_range\<close>; \<open>seed_bucket\<close> is the body of the inner loop over the candidate buckets
  of one level, \<open>fenwick_level\<close> the body of the loop over the levels.
\<close>

record fenwick_state =
  indices_to_search :: "(nat \<times> nat) list"
  last_range :: "nat \<times> nat"

definition seed_bucket :: "nat \<Rightarrow> nat \<Rightarrow> nat \<Rightarrow> nat \<Rightarrow> nat \<Rightarrow> fenwick_state \<Rightarrow> fenwick_state" where
  "seed_bucket inclusive_start exclusive_end bucket_size_index current_bucket_size
       possible_bucket_index st =
     (let bucket_start = possible_bucket_index * current_bucket_size;
          bucket_end = bucket_start + current_bucket_size
      in if bucket_start \<ge> inclusive_start \<and> bucket_end \<le> exclusive_end
         then \<lparr>indices_to_search =
                 indices_to_search st @ [(bucket_size_index, bucket_start div current_bucket_size)],
               last_range = (bucket_start, bucket_start + current_bucket_size)\<rparr>
         else st)"

definition fenwick_level :: "nat list \<Rightarrow> nat \<Rightarrow> nat \<Rightarrow> nat \<Rightarrow> fenwick_state \<Rightarrow> fenwick_state" where
  "fenwick_level bss inclusive_start exclusive_end bucket_size_index st =
     (let current_bucket_size = bss ! bucket_size_index;
          st1 = (if last_range st = (0, 0)
                 then fold (seed_bucket inclusive_start exclusive_end bucket_size_index
                              current_bucket_size)
                        [inclusive_start div current_bucket_size ..<
                         exclusive_end div current_bucket_size] st
                 else st)
      in if last_range st1 = (0, 0) then st1
         else
           (let left_space = size_t_sub (fst (last_range st1)) inclusive_start;
                right_space = size_t_sub exclusive_end (snd (last_range st1));
                st2 = (if left_space > current_bucket_size
                       then \<lparr>indices_to_search = indices_to_search st1 @
                               [(bucket_size_index,
                                 size_t_sub (fst (last_range st1)) current_bucket_size
                                   div current_bucket_size)],
                             last_range =
                               (size_t_sub (fst (last_range st1)) current_bucket_size,
                                snd (last_range st1))\<rparr>
                       else st1);
                st3 = (if right_space > current_bucket_size
                       then \<lparr>indices_to_search = indices_to_search st2 @
                               [(bucket_size_index, snd (last_range st2) div current_bucket_size)],
                             last_range =
                               (fst (last_range st2), snd (last_range st2) + current_bucket_size)\<rparr>
                       else st2)
            in st3))"

definition fenwick_plan :: "nat list \<Rightarrow> nat \<Rightarrow> nat \<Rightarrow> fenwick_state" where
  "fenwick_plan bss inclusive_start exclusive_end =
     fold (fenwick_level bss inclusive_start exclusive_end) (rev [0..<length bss])
       \<lparr>indices_to_search = [], last_range = (0, 0)\<rparr>"

text \<open>The queries of the planned buckets, in plan order.\<close>

fun query_buckets ::
  "('f SpatialIndex \<Rightarrow> 't list \<Rightarrow> 'f FilterRange \<Rightarrow> QueryParams \<Rightarrow> pid list)
     \<Rightarrow> ('t, 'f) RangeFilterTreeIndex \<Rightarrow> 't list \<Rightarrow> 'f FilterRange \<Rightarrow> QueryParams
     \<Rightarrow> (nat \<times> nat) list \<Rightarrow> ('f, pid list) run" where
  "query_buckets sq idx query rng qp [] = mret []"
| "query_buckets sq idx query rng qp (index_pair # rest) =
     mbind (checked_at (spatial_indices idx) (fst index_pair)) (\<lambda>level.
     mbind (checked_at level (snd index_pair)) (\<lambda>si.
     mbind (memit (SubIndexQuery (fst index_pair) (snd index_pair) rng qp)) (\<lambda>u.
     mbind (query_buckets sq idx query rng qp rest) (\<lambda>more.
     mret (sq si query rng qp @ more)))))"

text \<open>The brute-force loop \<open>for (i = a; i < b; i++)\<close> over the stored points.\<close>

definition brute_force ::
  "('t list \<Rightarrow> 't list \<Rightarrow> cfloat) \<Rightarrow> ('t, 'f) RangeFilterTreeIndex \<Rightarrow> 't list \<Rightarrow> nat \<Rightarrow> nat
     \<Rightarrow> ('f, pid list) run" where
  "brute_force distance idx query a b =
     (if a < b \<and> length (points idx) < b then mthrow undefined_behaviour
      else mret (map (\<lambda>i. (i, distance (points idx ! i) query)) [a..<b]))"

definition residue ::
  "('t list \<Rightarrow> 't list \<Rightarrow> cfloat) \<Rightarrow> ('t, 'f) RangeFilterTreeIndex \<Rightarrow> 't list \<Rightarrow> nat \<Rightarrow> nat
     \<Rightarrow> nat \<times> nat \<Rightarrow> ('f, pid list) run" where
  "residue distance idx query inclusive_start exclusive_end lr =
     (if lr = (0, 0) then brute_force distance idx query inclusive_start exclusive_end
      else mbind (brute_force distance idx query inclusive_start (fst lr)) (\<lambda>l.
           mbind (brute_force distance idx query (snd lr) exclusive_end) (\<lambda>r.
           mret (l @ r))))"

text \<open>The final sort by distance and the cut to \<open>knn\<close> results.\<close>

definition sort_and_cut :: "pid sorter \<Rightarrow> nat \<Rightarrow> pid list \<Rightarrow> pid list" where
  "sort_and_cut srt knn frontier =
     (let sorted_frontier = srt (\<lambda>a b. flt_less (snd a) (snd b)) frontier
      in if length sorted_frontier > knn then take knn sorted_frontier else sorted_frontier)"

definition fenwick_tree_search ::
  "pid sorter
     \<Rightarrow> ('f SpatialIndex \<Rightarrow> 't list \<Rightarrow> 'f FilterRange \<Rightarrow> QueryParams \<Rightarrow> pid list)
     \<Rightarrow> ('t list \<Rightarrow> 't list \<Rightarrow> cfloat)
     \<Rightarrow> ('t, 'f::linorder) RangeFilterTreeIndex \<Rightarrow> 't list \<Rightarrow> 'f FilterRange \<Rightarrow> QueryParams
     \<Rightarrow> ('f, pid list) run" where
  "fenwick_tree_search srt sq distance idx query rng qp =
     mbind (check_empty idx rng) (\<lambda>emp.
       if emp then mret []
       else
         (let knn = k qp;
              inclusive_start = first_greater_than (filter_values idx) (fst rng);
              exclusive_end = first_greater_than_or_equal_to (filter_values idx) (snd rng);
              plan = fenwick_plan (bucket_sizes idx) inclusive_start exclusive_end
          in mbind (query_buckets sq idx query rng qp (indices_to_search plan)) (\<lambda>found.
             mbind (residue distance idx query inclusive_start exclusive_end (last_range plan)) (\<lambda>rest.
             mret (sort_and_cut srt knn (found @ rest))))))"

text \<open>
  The level scan of \<open>optimized_postfiltering_search\<close>, smallest level first, leaving at
  the first level whose bucket holds both ends of the window.
\<close>

fun level_scan :: "nat list \<Rightarrow> nat \<Rightarrow> nat \<Rightarrow> nat \<Rightarrow> (nat \<times> nat) option" where
  "level_scan [] bucket_id inclusive_start exclusive_end = None"
| "level_scan (bucket_size # rest) bucket_id inclusive_start exclusive_end =
     (let start_bucket = inclusive_start div bucket_size;
          end_bucket = size_t_sub exclusive_end 1 div bucket_size
      in if start_bucket = end_bucket then Some (bucket_id, start_bucket)
         else level_scan rest (Suc bucket_id) inclusive_start exclusive_end)"

text \<open>
  The arithmetic of \<open>(float)bucket_size / (exclusive_end - inclusive_start)\<close> in binary32,
  rounding to nearest with ties to even. \<open>significant_bits n\<close> is the number of binary
  digits of \<open>n\<close>, and \<open>round_half_even p q\<close> the integer nearest to \<open>p / q\<close>.
  \<open>float_of_size_t\<close> is the conversion of a \<open>size_t\<close> to \<open>float\<close>: it keeps 24 significant
  bits, and its value is again a natural number (at most \<open>2 ^ 64\<close>). \<open>float_quotient a b\<close>
  is the float nearest to \<open>a / b\<close> for positive \<open>a\<close> and \<open>b\<close>: the quotient is scaled by
  \<open>2 ^ s\<close> into \<open>[2 ^ 23, 2 ^ 24)\<close>, rounded to an integer and scaled back. Both operands
  lie between 1 and \<open>2 ^ 64\<close>, so the quotient is a normal number and neither overflow nor
  a subnormal result can occur.
\<close>

fun significant_bits :: "nat \<Rightarrow> nat" where
  "significant_bits n = (if n = 0 then 0 else Suc (significant_bits (n div 2)))"

definition round_half_even :: "nat \<Rightarrow> nat \<Rightarrow> nat" where
  "round_half_even p q =
     (let m = p div q; r = p mod q
      in if q < 2 * r \<or> (2 * r = q \<and> odd m) then m + 1 else m)"

definition float_of_size_t :: "nat \<Rightarrow> nat" where
  "float_of_size_t n =
     (let e = significant_bits n - 24 in round_half_even n (2 ^ e) * 2 ^ e)"

definition float_quotient :: "nat \<Rightarrow> nat \<Rightarrow> real" where
  "float_quotient a b =
     (let d = int (significant_bits a) - int (significant_bits b);
          scaled = (\<lambda>s. if 0 \<le> s then (a * 2 ^ nat s, b) else (a, b * 2 ^ nat (- s)));
          s = (if fst (scaled (24 - d)) div snd (scaled (24 - d)) < 2 ^ 24
               then 24 - d else 23 - d);
          m = round_half_even (fst (scaled s)) (snd (scaled s))
      in if 0 \<le> s then real m / 2 ^ nat s else real m * 2 ^ nat (- s))"

text \<open>
  The float \<open>bucket_size_to_query_size_ratio\<close> of the source: both operands are converted
  to \<open>float\<close> and divided there; a positive size over zero is \<open>+inf\<close>, zero over zero is
  NaN. \<open>ratio_exceeds\<close> is the test \<open>bucket_size_to_query_size_ratio > ratio\<close>.
\<close>

definition bucket_size_to_query_size_ratio :: "nat \<Rightarrow> nat \<Rightarrow> cfloat" where
  "bucket_size_to_query_size_ratio bucket_size window_size =
     (let a = float_of_size_t bucket_size;
          b = float_of_size_t window_size
      in if b = 0 then (if a = 0 then NaN else PosInf)
         else if a = 0 then Finite 0
         else Finite (float_quotient a b))"

definition ratio_exceeds :: "nat \<Rightarrow> nat \<Rightarrow> cfloat \<Rightarrow> bool" where
  "ratio_exceeds bucket_size window_size r =
     flt_less r (bucket_size_to_query_size_ratio bucket_size window_size)"

definition optimized_postfiltering_search ::
  "pid sorter
     \<Rightarrow> ('f SpatialIndex \<Rightarrow> 't list \<Rightarrow> 'f FilterRange \<Rightarrow> QueryParams \<Rightarrow> pid list)
     \<Rightarrow> ('t list \<Rightarrow> 't list \<Rightarrow> cfloat)
     \<Rightarrow> ('t, 'f::linorder) RangeFilterTreeIndex \<Rightarrow> 't list \<Rightarrow> 'f FilterRange \<Rightarrow> QueryParams
     \<Rightarrow> ('f, pid list) run" where
  "optimized_postfiltering_search srt sq distance idx query rng qp =
     mbind (check_empty idx rng) (\<lambda>emp.
       if emp then mret []
       else
         (let inclusive_start = first_greater_than (filter_values idx) (fst rng);
              exclusive_end = first_greater_than_or_equal_to (filter_values idx) (snd rng)
          in if size_t_mul 4 (size_t_sub exclusive_end inclusive_start) < size_t_of_int (cutoff idx)
             then fenwick_tree_search srt sq distance idx query rng qp
             else
               (let found = level_scan (bucket_sizes idx) 0 inclusive_start exclusive_end;
                    index_key = (case found of None \<Rightarrow> (0, 0) | Some key \<Rightarrow> key)
                in mbind (case found of
                            None \<Rightarrow> mret ()
                          | Some key \<Rightarrow>
                              if verbose qp
                              then memit (VerboseContainingRange inclusive_start exclusive_end
                                     (bucket_sizes idx ! fst key)
                                     (snd key * (bucket_sizes idx ! fst key)))
                              else mret ()) (\<lambda>u.
                   mbind (unchecked_read (bucket_sizes idx) (fst index_key)) (\<lambda>bucket_size.
                     if (case min_query_to_bucket_ratio qp of
                           None \<Rightarrow> False
                         | Some r \<Rightarrow>
                             ratio_exceeds bucket_size
                               (size_t_sub exclusive_end inclusive_start) r)
                     then fenwick_tree_search srt sq distance idx query rng qp
                     else
                       mbind (checked_at (spatial_indices idx) (fst index_key)) (\<lambda>level.
                       mbind (checked_at level (snd index_key)) (\<lambda>si.
                       mbind (memit (SubIndexQuery (fst index_key) (snd index_key) rng qp)) (\<lambda>u.
                       mret (sq si query rng qp)))))))))"

text \<open>
  The scan of \<open>three_split_search\<close>, largest level first, leaving both loops at the first
  bucket that lies inside the window (the last bucket of a level cut at \<open>n\<close>).
\<close>

fun three_split_scan :: "nat list \<Rightarrow> nat \<Rightarrow> nat \<Rightarrow> nat \<Rightarrow> nat list \<Rightarrow> (nat \<times> nat) option" where
  "three_split_scan bss n inclusive_start exclusive_end [] = None"
| "three_split_scan bss n inclusive_start exclusive_end (bucket_size_index # lower) =
     (let current_bucket_size = bss ! bucket_size_index
      in case List.find
                (\<lambda>possible_bucket_index.
                   possible_bucket_index * current_bucket_size \<ge> inclusive_start \<and>
                   min (possible_bucket_index * current_bucket_size + current_bucket_size) n
                     \<le> exclusive_end)
                [inclusive_start div current_bucket_size ..<
                 exclusive_end div current_bucket_size] of
           Some possible_bucket_index \<Rightarrow> Some (bucket_size_index, possible_bucket_index)
         | None \<Rightarrow> three_split_scan bss n inclusive_start exclusive_end lower)"

definition three_split_search ::
  "pid sorter
     \<Rightarrow> ('f SpatialIndex \<Rightarrow> 't list \<Rightarrow> 'f FilterRange \<Rightarrow> QueryParams \<Rightarrow> pid list)
     \<Rightarrow> ('t list \<Rightarrow> 't list \<Rightarrow> cfloat)
     \<Rightarrow> ('t, 'f::linorder) RangeFilterTreeIndex \<Rightarrow> 't list \<Rightarrow> 'f FilterRange \<Rightarrow> QueryParams
     \<Rightarrow> ('f, pid list) run" where
  "three_split_search srt sq distance idx query filter_range qp =
     (let inclusive_start = first_greater_than (filter_values idx) (fst filter_range);
          exclusive_end = first_greater_than_or_equal_to (filter_values idx) (snd filter_range)
      in case three_split_scan (bucket_sizes idx) (length (points idx))
                inclusive_start exclusive_end (rev [0..<length (bucket_sizes idx)]) of
           None \<Rightarrow> fenwick_tree_search srt sq distance idx query filter_range qp
         | Some index_to_search \<Rightarrow>
             (let bucket_size_index = fst index_to_search;
                  bucket_index = snd index_to_search;
                  qp_copy = QueryParams8 (k qp) (beamSize qp) (cut qp) (limit qp)
                              (degree_limit qp) 1 (postfiltering_max_beam qp)
                              (min_query_to_bucket_ratio qp)
              in mbind (checked_at (spatial_indices idx) bucket_size_index) (\<lambda>level.
                 mbind (checked_at level bucket_index) (\<lambda>si.
                 mbind (memit (SubIndexQuery bucket_size_index bucket_index filter_range qp_copy)) (\<lambda>u.
                 mbind (mret (sq si query filter_range qp_copy)) (\<lambda>center.
                 mbind (unchecked_read (bucket_sizes idx) bucket_size_index) (\<lambda>bucket_size.
                   (let middle_start = bucket_index * bucket_size;
                        middle_end = min (middle_start + bucket_size) (length (points idx));
                        left_space = size_t_sub middle_start inclusive_start;
                        right_space = size_t_sub exclusive_end middle_end
                    in mbind (if left_space > 0
                              then mbind (unchecked_read (filter_values idx) middle_start) (\<lambda>upper.
                                     optimized_postfiltering_search srt sq distance idx query
                                       (fst filter_range, upper) qp)
                              else mret []) (\<lambda>left.
                       mbind (if right_space > 0
                              then mbind (unchecked_read (filter_values idx) middle_end) (\<lambda>lower.
                                     optimized_postfiltering_search srt sq distance idx query
                                       (lower, snd filter_range) qp)
                              else mret []) (\<lambda>right.
                       mret (sort_and_cut srt (k qp) (center @ left @ right))))))))))))"

section \<open>The batch driver\<close>

text \<open>The choice of strategy by \<open>query_method\<close>, as in the body of \<open>batch_search\<close>.\<close>

definition search_by_method ::
  "pid sorter
     \<Rightarrow> ('f SpatialIndex \<Rightarrow> 't list \<Rightarrow> 'f FilterRange \<Rightarrow> QueryParams \<Rightarrow> pid list)
     \<Rightarrow> ('t list \<Rightarrow> 't list \<Rightarrow> cfloat)
     \<Rightarrow> ('t, 'f::linorder) RangeFilterTreeIndex \<Rightarrow> string \<Rightarrow> 't list \<Rightarrow> 'f FilterRange
     \<Rightarrow> QueryParams \<Rightarrow> ('f, pid list) run" where
  "search_by_method srt sq distance idx query_method q frange qp =
     (if query_method = ''optimized_postfilter''
      then optimized_postfiltering_search srt sq distance idx q frange qp
      else if query_method = ''three_split''
      then three_split_search srt sq distance idx q frange qp
      else fenwick_tree_search srt sq distance idx q frange qp)"

text \<open>One output row: the first \<open>knn\<close> results with their original ids, then the padding.\<close>

definition output_slot ::
  "('t, 'f) RangeFilterTreeIndex \<Rightarrow> pid list \<Rightarrow> nat \<Rightarrow> ('f, nat \<times> cfloat) run" where
  "output_slot idx results j =
     (if j < length results
      then mbind (checked_at (sorted_index_to_original_point_id idx) (fst (results ! j))) (\<lambda>orig.
           mret (orig, snd (results ! j)))
      else mret (0, float_max))"

definition batch_rows ::
  "pid sorter
     \<Rightarrow> ('f SpatialIndex \<Rightarrow> 't list \<Rightarrow> 'f FilterRange \<Rightarrow> QueryParams \<Rightarrow> pid list)
     \<Rightarrow> ('t list \<Rightarrow> 't list \<Rightarrow> cfloat)
     \<Rightarrow> ('t, 'f::linorder) RangeFilterTreeIndex \<Rightarrow> 't list list \<Rightarrow> 'f FilterRange list \<Rightarrow> nat
     \<Rightarrow> string \<Rightarrow> QueryParams \<Rightarrow> ('f, (nat \<times> cfloat) list list) run" where
  "batch_rows srt sq distance idx queries filters num_queries query_method qp =
     (let knn = k qp
      in run_all (\<lambda>i.
           mbind (unchecked_read queries i) (\<lambda>q.
           mbind (unchecked_read filters i) (\<lambda>frange.
           mbind (search_by_method srt sq distance idx query_method q frange qp) (\<lambda>results.
           run_all (output_slot idx results) [0..<knn]))))
         [0..<num_queries])"

text \<open>
  \<open>batch_search\<close> as a method of the index object: the state is the index and what has
  been written to standard output; the value is the pair of the id and distance matrices.
  The queries of a batch are taken in row order.
\<close>

record ('t, 'f) process_state =
  the_index :: "('t, 'f) RangeFilterTreeIndex"
  standard_output :: "'f event list"

definition batch_search ::
  "pid sorter
     \<Rightarrow> ('f SpatialIndex \<Rightarrow> 't list \<Rightarrow> 'f FilterRange \<Rightarrow> QueryParams \<Rightarrow> pid list)
     \<Rightarrow> ('t list \<Rightarrow> 't list \<Rightarrow> cfloat)
     \<Rightarrow> 't list list \<Rightarrow> ('f::linorder) FilterRange list \<Rightarrow> nat \<Rightarrow> string \<Rightarrow> QueryParams
     \<Rightarrow> ('t, 'f) process_state
     \<Rightarrow> (error + nat list list \<times> cfloat list list) \<times> ('t, 'f) process_state" where
  "batch_search srt sq distance queries filters num_queries query_method qp st =
     (case batch_rows srt sq distance (the_index st) queries filters num_queries query_method qp of
        (Inl err, tr) \<Rightarrow> (Inl err, st\<lparr>standard_output := standard_output st @ tr\<rparr>)
      | (Inr rows, tr) \<Rightarrow>
          (Inr (map (map fst) rows, map (map snd) rows),
           st\<lparr>standard_output := standard_output st @ tr\<rparr>))"

section \<open>Coverage of a fenwick plan\<close>

text \<open>
  The sorted positions a \<open>fenwick_tree_search\<close> looks at, in the order it looks at them:
  the subsets of the planned buckets, then the positions of the brute-force loops. A
  position listed twice is looked at twice.
\<close>

definition planned_positions :: "('t, 'f::linorder) RangeFilterTreeIndex \<Rightarrow> 'f FilterRange \<Rightarrow> nat list" where
  "planned_positions idx rng =
     (let inclusive_start = first_greater_than (filter_values idx) (fst rng);
          exclusive_end = first_greater_than_or_equal_to (filter_values idx) (snd rng);
          plan = fenwick_plan (bucket_sizes idx) inclusive_start exclusive_end
      in concat (map (\<lambda>index_pair.
                   subset_of_indices (spatial_indices idx ! fst index_pair ! snd index_pair))
                 (indices_to_search plan)) @
         (if last_range plan = (0, 0) then [inclusive_start..<exclusive_end]
          else [inclusive_start..<fst (last_range plan)] @
               [snd (last_range plan)..<exclusive_end]))"

text \<open>
  The sorted positions \<open>[b * w, b * w + w)\<close> of a full bucket \<open>(j, b)\<close> of width
  \<open>w = _bucket_sizes[j]\<close>, the test that such a bucket lies inside the window
  \<open>[s, e)\<close>, and the invariant of the planning loop: every planned bucket lies inside
  the window, and the recorded range, once set, is a non-empty part of the window whose
  ends are multiples of the current width and whose positions all lie in planned buckets.
\<close>

definition bucket_span :: "nat list \<Rightarrow> nat \<times> nat \<Rightarrow> nat set" where
  "bucket_span bss p = {snd p * (bss ! fst p) ..< snd p * (bss ! fst p) + bss ! fst p}"

definition bucket_fits :: "nat list \<Rightarrow> nat \<Rightarrow> nat \<Rightarrow> nat \<times> nat \<Rightarrow> bool" where
  "bucket_fits bss s e p =
     (fst p < length bss \<and> s \<le> snd p * (bss ! fst p) \<and> snd p * (bss ! fst p) + bss ! fst p \<le> e)"

definition plan_inv :: "nat list \<Rightarrow> nat \<Rightarrow> nat \<Rightarrow> nat \<Rightarrow> fenwick_state \<Rightarrow> bool" where
  "plan_inv bss s e w st =
     (list_all (bucket_fits bss s e) (indices_to_search st) \<and>
      (if last_range st = (0, 0) then indices_to_search st = []
       else s \<le> fst (last_range st) \<and> fst (last_range st) < snd (last_range st) \<and>
            snd (last_range st) \<le> e \<and> w dvd fst (last_range st) \<and> w dvd snd (last_range st) \<and>
            {fst (last_range st) ..< snd (last_range st)}
              \<subseteq> \<Union> (bucket_span bss ` set (indices_to_search st))))"

section \<open>Properties of results and traces\<close>

text \<open>A result sequence in ascending order of distance, and one without a NaN distance.\<close>

definition ascending_by_distance :: "pid list \<Rightarrow> bool" where
  "ascending_by_distance results = sorted_wrt (\<lambda>a b. \<not> flt_less (snd b) (snd a)) results"

definition nan_free :: "pid list \<Rightarrow> bool" where
  "nan_free results = list_all (\<lambda>p. snd p \<noteq> NaN) results"

text \<open>An event that is not a bucket query with parameters other than \<open>qp\<close>.\<close>

definition forwards :: "QueryParams \<Rightarrow> 'f event \<Rightarrow> bool" where
  "forwards qp ev = (case ev of SubIndexQuery j b r p \<Rightarrow> p = qp | _ \<Rightarrow> True)"

text \<open>
  \<open>returns P m\<close>: if the run \<open>m\<close> ends with a value, the value satisfies \<open>P\<close>.
  \<open>emits P m\<close>: every event of the run satisfies \<open>P\<close>, however it ends.
\<close>

definition returns :: "('a \<Rightarrow> bool) \<Rightarrow> ('f, 'a) run \<Rightarrow> bool" where
  "returns P m = (case fst m of Inl err \<Rightarrow> True | Inr x \<Rightarrow> P x)"

definition emits :: "('f event \<Rightarrow> bool) \<Rightarrow> ('f, 'a) run \<Rightarrow> bool" where
  "emits P m = list_all P (snd m)"

section \<open>Collaborators for concrete runs\<close>

text \<open>The squared Euclidean distance of two rows, as a distance kernel for concrete runs.\<close>

definition squared_l2 :: "real list \<Rightarrow> real list \<Rightarrow> cfloat" where
  "squared_l2 p q = Finite (sum_list (map2 (\<lambda>a b. (a - b) * (a - b)) p q))"

text \<open>
  Modelled from the spec: the per-bucket SubIndex (\<open>prefiltering.h\<close> and
  \<open>postfilter_vamana.h\<close> are not among the sources). This one is exact: of the points of
  its bucket whose filter value lies in the closed range it returns the \<open>k\<close> nearest, by
  ascending distance, with ids in the sorted coordinate space.
\<close>

definition exact_bucket_query ::
  "pid sorter \<Rightarrow> ('t list \<Rightarrow> 't list \<Rightarrow> cfloat) \<Rightarrow> 't list list
     \<Rightarrow> ('f::linorder) SpatialIndex \<Rightarrow> 't list \<Rightarrow> 'f FilterRange \<Rightarrow> QueryParams \<Rightarrow> pid list" where
  "exact_bucket_query srt distance pts si query rng qp =
     take (k qp) (srt (\<lambda>a b. flt_less (snd a) (snd b))
       (map (\<lambda>p. (fst p, distance (pts ! fst p) query))
          (filter (\<lambda>p. fst rng \<le> snd p \<and> snd p \<le> snd rng)
             (zip (subset_of_indices si) (subset_of_filter_values si)))))"

text \<open>
  A SubIndex for concrete runs that answers each position of its bucket with the
  \<open>final_beam_multiply\<close> it is queried with, in the place of the distance: the parameters
  a query is given show in what the search returns.
\<close>

definition echo_bucket_query ::
  "'f SpatialIndex \<Rightarrow> 't list \<Rightarrow> 'f FilterRange \<Rightarrow> QueryParams \<Rightarrow> pid list" where
  "echo_bucket_query si query rng qp =
     map (\<lambda>i. (i, Finite (final_beam_multiply qp))) (subset_of_indices si)"

definition example_qp :: QueryParams where
  "example_qp =
     \<lparr>k = 2, beamSize = 10, cut = 2, limit = 100, degree_limit = 64,
      final_beam_multiply = 3, postfiltering_max_beam = 1000,
      min_query_to_bucket_ratio = None, verbose = False\<rparr>"

text \<open>Indexes of concrete runs, as the constructor builds them.\<close>

definition single_point_index :: "(real, real) RangeFilterTreeIndex" where
  "single_point_index =
     \<lparr>bucket_sizes = [1], starts = [[0]],
      spatial_indices = [[\<lparr>subset_of_indices = [0], subset_of_filter_values = [1 / 2]\<rparr>]],
      sorted_index_to_original_point_id = [0], filter_values = [1 / 2],
      cutoff = 1, points = [[1, 0]]\<rparr>"

definition eight_point_index :: "(real, nat) RangeFilterTreeIndex" where
  "eight_point_index =
     \<lparr>bucket_sizes = [2, 4, 8], starts = [[0, 2, 4, 6], [0, 4], [0]],
      spatial_indices =
        [[\<lparr>subset_of_indices = [0, 1], subset_of_filter_values = [0, 1]\<rparr>,
          \<lparr>subset_of_indices = [2, 3], subset_of_filter_values = [2, 3]\<rparr>,
          \<lparr>subset_of_indices = [4, 5], subset_of_filter_values = [4, 5]\<rparr>,
          \<lparr>subset_of_indices = [6, 7], subset_of_filter_values = [6, 7]\<rparr>],
         [\<lparr>subset_of_indices = [0, 1, 2, 3], subset_of_filter_values = [0, 1, 2, 3]\<rparr>,
          \<lparr>subset_of_indices = [4, 5, 6, 7], subset_of_filter_values = [4, 5, 6, 7]\<rparr>],
         [\<lparr>subset_of_indices = [0, 1, 2, 3, 4, 5, 6, 7],
           subset_of_filter_values = [0, 1, 2, 3, 4, 5, 6, 7]\<rparr>]],
      sorted_index_to_original_point_id = [0, 1, 2, 3, 4, 5, 6, 7],
      filter_values = [0, 1, 2, 3, 4, 5, 6, 7], cutoff = 2,
      points = [[0], [1], [2], [3], [4], [5], [6], [7]]\<rparr>"

definition flat_index :: "nat list \<Rightarrow> nat list \<Rightarrow> int \<Rightarrow> real list list \<Rightarrow> (real, nat) RangeFilterTreeIndex" where
  "flat_index decoding fv c pts =
     \<lparr>bucket_sizes = [], starts = [], spatial_indices = [],
      sorted_index_to_original_point_id = decoding, filter_values = fv,
      cutoff = c, points = pts\<rparr>"

definition tied_index :: "(real, nat) RangeFilterTreeIndex" where
  "tied_index = flat_index [0, 2, 1] [0, 1, 2] 1000 [[0], [1], [1]]"

definition untied_index :: "(real, nat) RangeFilterTreeIndex" where
  "untied_index = flat_index [0, 1, 2] [0, 1, 2] 1000 [[0], [1], [1]]"

definition three_point_index :: "(real, nat) RangeFilterTreeIndex" where
  "three_point_index = flat_index [0, 1, 2] [1, 2, 3] 1000 [[0], [1], [2]]"

definition three_point_state :: "(real, nat) process_state" where
  "three_point_state = \<lparr>the_index = three_point_index, standard_output = []\<rparr>"

text \<open>The exact bucket index over the points of an index, with the stable insertion sort.\<close>

definition bucket_query_of ::
  "(real, nat) RangeFilterTreeIndex
     \<Rightarrow> nat SpatialIndex \<Rightarrow> real list \<Rightarrow> nat FilterRange \<Rightarrow> QueryParams \<Rightarrow> pid list" where
  "bucket_query_of idx = exact_bucket_query stable_insertion_sort squared_l2 (points idx)"

section \<open>Evaluation rules\<close>

declare level_loop.simps [simp del]

declare significant_bits.simps [simp del]

declare first_greater_than_loop.simps [simp del]

declare first_greater_than_or_equal_to_loop.simps [simp del]

lemmas run_defs = mret_def mthrow_def memit_def mbind_def unchecked_read_def checked_at_def

lemmas size_t_defs = size_t_sub_def size_t_mul_def size_t_of_int_def

lemmas fixture_defs =
  flat_index_def tied_index_def untied_index_def three_point_index_def three_point_state_def bucket_query_of_def
  eight_point_index_def single_point_index_def example_qp_def exact_bucket_query_def
  squared_l2_def

lemmas build_defs =
  RangeFilterTreeIndex_public_def RangeFilterTreeIndex_private_def make_bucket_def
  stable_insertion_sort_def reversing_insertion_sort_def Let_def level_loop.simps

lemmas search_defs =
  batch_search_def batch_rows_def output_slot_def search_by_method_def
  fenwick_tree_search_def optimized_postfiltering_search_def three_split_search_def
  check_empty_def first_greater_than_def first_greater_than_or_equal_to_def
  fenwick_plan_def fenwick_level_def seed_bucket_def residue_def brute_force_def
  sort_and_cut_def ratio_exceeds_def QueryParams8_def
  first_greater_than_loop.simps first_greater_than_or_equal_to_loop.simps

section \<open>The float ratio\<close>

text \<open>Evaluation of \<open>significant_bits\<close> at a numeral.\<close>

lemma significant_bits_eval:
  "significant_bits 0 = 0"
  "significant_bits (Suc 0) = 1"
  "significant_bits (numeral n) = Suc (significant_bits (numeral n div 2))"
  by (simp_all add: significant_bits.simps[of 0] significant_bits.simps[of "Suc 0"]
      significant_bits.simps[of "0 div 2"] significant_bits.simps[of "numeral n"])

lemma significant_bits_le: "n < 2 ^ b \<Longrightarrow> significant_bits n \<le> b"
proof (induction n arbitrary: b rule: significant_bits.induct)
  case (1 n)
  show ?case
  proof (cases "n = 0")
    case True
    then show ?thesis by (simp add: significant_bits.simps[of 0])
  next
    case False
    then obtain b' where b: "b = Suc b'" using "1.prems" by (cases b) auto
    have "n div 2 < 2 ^ b'" using "1.prems" b by auto
    from "1.IH"[OF False this] show ?thesis
      using False b by (simp add: significant_bits.simps[of n])
  qed
qed

text \<open>A \<open>size_t\<close> below \<open>2 ^ 24\<close> is a float as it is.\<close>

lemma float_of_size_t_exact: "n < 2 ^ 24 \<Longrightarrow> float_of_size_t n = n"
  using significant_bits_le[of n 24]
  by (simp add: float_of_size_t_def round_half_even_def)

text \<open>
  Above, the conversion rounds to 24 significant bits, ties to even: \<open>2 ^ 24 + 1\<close>
  becomes \<open>2 ^ 24\<close> and \<open>2 ^ 24 + 3\<close> becomes \<open>2 ^ 24 + 4\<close>.
\<close>

lemma float_of_size_t_rounds:
  "float_of_size_t 16777217 = 16777216" "float_of_size_t 16777219 = 16777220"
  by (simp_all add: float_of_size_t_def round_half_even_def significant_bits_eval)

text \<open>
  The quotient is rounded: \<open>(float)5 / 3\<close> is \<open>13981013 / 2 ^ 23\<close>, which is below \<open>5 / 3\<close>,
  and \<open>(float)1 / 3\<close> is \<open>11184811 / 2 ^ 25\<close>, which is above \<open>1 / 3\<close>. So a bucket of 5
  over a window of 3 does not exceed the ratio \<open>13981013 / 2 ^ 23\<close>, though \<open>5 / 3\<close> does.
\<close>

lemma float_quotient_rounds:
  "float_quotient 5 3 = 13981013 / 8388608" "float_quotient 1 3 = 11184811 / 33554432"
  "(13981013 / 8388608 :: real) < 5 / 3" "(1 / 3 :: real) < 11184811 / 33554432"
  by (simp_all add: float_quotient_def round_half_even_def significant_bits_eval)

lemma ratio_test_in_float:
  "\<not> ratio_exceeds 5 3 (Finite (13981013 / 8388608))"
  "ratio_exceeds 5 3 (Finite (13981012 / 8388608))"
  "ratio_exceeds 5 0 (Finite 1000)" "\<not> ratio_exceeds 0 0 (Finite 0)"
  by (simp_all add: ratio_exceeds_def bucket_size_to_query_size_ratio_def float_of_size_t_def
      float_quotient_def round_half_even_def significant_bits_eval)

text \<open>
  The rounding is the one of binary32. A positive number of \<open>l\<close> binary digits lies in
  \<open>[2 ^ (l - 1), 2 ^ l)\<close>, and \<open>round_half_even p q\<close> is within one half of \<open>p / q\<close>.
\<close>

lemma significant_bits_bounds:
  "0 < n \<Longrightarrow> 0 < significant_bits n \<and> 2 ^ (significant_bits n - 1) \<le> n \<and> n < 2 ^ significant_bits n"
proof (induction n rule: significant_bits.induct)
  case (1 n)
  have n: "n \<noteq> 0" using "1.prems" by simp
  have sb: "significant_bits n = Suc (significant_bits (n div 2))"
    using n by (simp add: significant_bits.simps[of n])
  show ?case
  proof (cases "n div 2 = 0")
    case True
    then have "n = 1" using n by (cases n) auto
    then show ?thesis by (simp add: significant_bits_eval)
  next
    case False
    then have "0 < n div 2" by simp
    from "1.IH"[OF n this] have ih: "0 < significant_bits (n div 2)"
      "2 ^ (significant_bits (n div 2) - 1) \<le> n div 2" "n div 2 < 2 ^ significant_bits (n div 2)"
      by simp_all
    have "2 ^ (significant_bits n - 1) = 2 * 2 ^ (significant_bits (n div 2) - 1)"
      using ih(1) sb by (cases "significant_bits (n div 2)") simp_all
    also have "\<dots> \<le> 2 * (n div 2)" using ih(2) by simp
    also have "\<dots> \<le> n" by simp
    finally have lo: "2 ^ (significant_bits n - 1) \<le> n" .
    have "n < 2 * (n div 2) + 2" by presburger
    also have "\<dots> \<le> 2 * 2 ^ significant_bits (n div 2)" using ih(3) by simp
    finally have hi: "n < 2 ^ significant_bits n" using sb by simp
    show ?thesis using lo hi sb by simp
  qed
qed

lemma round_half_even_near:
  assumes "0 < q"
  shows "\<bar>real p / real q - real (round_half_even p q)\<bar> \<le> 1 / 2"
proof -
  let ?m = "p div q" and ?r = "p mod q"
  have p: "real p = real ?m * real q + real ?r"
    by (metis div_mult_mod_eq of_nat_add of_nat_mult)
  have r: "?r < q" using assms by simp
  have q: "0 < real q" using assms by simp
  have x: "real p / real q = real ?m + real ?r / real q"
    using q by (simp add: p field_simps)
  show ?thesis
  proof (cases "q < 2 * ?r \<or> (2 * ?r = q \<and> odd ?m)")
    case True
    then have v: "round_half_even p q = ?m + 1" by (simp add: round_half_even_def Let_def)
    have "real q \<le> 2 * real ?r" using True by (metis le_eq_less_or_eq of_nat_le_iff of_nat_mult of_nat_numeral)
    then have "1 / 2 \<le> real ?r / real q" using q by (simp add: field_simps)
    moreover have "real ?r / real q < 1" using r q by simp
    ultimately show ?thesis unfolding v x by simp
  next
    case False
    then have v: "round_half_even p q = ?m" by (simp add: round_half_even_def Let_def)
    from False have "2 * ?r \<le> q" by auto
    then have "2 * real ?r \<le> real q" by (metis of_nat_le_iff of_nat_mult of_nat_numeral)
    then have "real ?r / real q \<le> 1 / 2" using q by (simp add: field_simps)
    moreover have "0 \<le> real ?r / real q" by simp
    ultimately show ?thesis unfolding v x by simp
  qed
qed

text \<open>
  \<open>float_quotient a b\<close> is \<open>m / 2 ^ s\<close> for a significand \<open>m\<close> of 24 bits that is within one
  half of \<open>a / b * 2 ^ s\<close>: a float nearest to the quotient. For operands up to \<open>2 ^ 64\<close>
  the exponent stays far inside the range of the normal numbers.
\<close>

lemma float_quotient_nearest:
  assumes "0 < a" "0 < b"
  shows "\<exists>m s. float_quotient a b = real m * 2 powi (- s) \<and> 2 ^ 23 \<le> m \<and> m \<le> 2 ^ 24 \<and>
           \<bar>real a / real b * 2 powi s - real m\<bar> \<le> 1 / 2 \<and>
           (a \<le> 2 ^ 64 \<and> b \<le> 2 ^ 64 \<longrightarrow> - 41 \<le> s \<and> s \<le> 88)"
proof -
  define la lb where "la = significant_bits a" and "lb = significant_bits b"
  define d where "d = int la - int lb"
  define sc where "sc = (\<lambda>s::int. if 0 \<le> s then (a * 2 ^ nat s, b) else (a, b * 2 ^ nat (- s)))"
  define s where "s = (if fst (sc (24 - d)) div snd (sc (24 - d)) < 2 ^ 24 then 24 - d else 23 - d)"
  define m where "m = round_half_even (fst (sc s)) (snd (sc s))"
  define x where "x = real a / real b * 2 powi s"
  have fq: "float_quotient a b = (if 0 \<le> s then real m / 2 ^ nat s else real m * 2 ^ nat (- s))"
    unfolding float_quotient_def Let_def m_def s_def sc_def d_def la_def lb_def by (rule refl)
  have val: "float_quotient a b = real m * 2 powi (- s)"
    unfolding fq by (simp add: power_int_def field_simps power_inverse)
  have Q: "0 < snd (sc t)" for t using assms by (simp add: sc_def)
  have ratio: "real (fst (sc t)) / real (snd (sc t)) = real a / real b * 2 powi t" for t
    by (simp add: sc_def power_int_def field_simps power_inverse)
  have ba: "0 < la" "2 ^ (la - 1) \<le> a" "a < 2 ^ la"
    using significant_bits_bounds[OF assms(1)] by (simp_all add: la_def)
  have bb: "0 < lb" "2 ^ (lb - 1) \<le> b" "b < 2 ^ lb"
    using significant_bits_bounds[OF assms(2)] by (simp_all add: lb_def)
  have ra: "(2::real) ^ (la - 1) \<le> real a" "real a < 2 ^ la"
    using ba(2,3) by (metis of_nat_le_iff of_nat_numeral of_nat_power, metis of_nat_less_iff of_nat_numeral of_nat_power)
  have rb: "(2::real) ^ (lb - 1) \<le> real b" "real b < 2 ^ lb"
    using bb(2,3) by (metis of_nat_le_iff of_nat_numeral of_nat_power, metis of_nat_less_iff of_nat_numeral of_nat_power)
  have pa: "0 < real a" and pb: "0 < real b" using assms by simp_all
  obtain la' lb' where l': "la = Suc la'" "lb = Suc lb'"
    using ba(1) bb(1) by (cases la, simp, cases lb) simp_all
  have e1: "(2::real) powi (d - 1) = 2 ^ (la - 1) / 2 ^ lb"
    by (simp add: d_def l' power_int_diff)
  have "(2::real) powi (int la - int lb') = 2 ^ la / 2 ^ lb'"
    by (simp add: power_int_diff)
  moreover have "d + 1 = int la - int lb'" by (simp add: d_def l')
  ultimately have e2: "(2::real) powi (d + 1) = 2 ^ la / 2 ^ (lb - 1)"
    by (simp only: l' diff_Suc_1)
  have lo: "2 powi (d - 1) < real a / real b"
  proof -
    have "(2::real) ^ (la - 1) / 2 ^ lb < 2 ^ (la - 1) / real b"
      using rb(2) pb by (simp add: frac_less2)
    also have "\<dots> \<le> real a / real b" using ra(1) pb by (simp add: divide_right_mono)
    finally show ?thesis by (simp add: e1)
  qed
  have hi: "real a / real b < 2 powi (d + 1)"
  proof -
    have "real a / real b < 2 ^ la / real b" using ra(2) pb by (simp add: divide_strict_right_mono)
    also have "\<dots> \<le> 2 ^ la / 2 ^ (lb - 1)" using rb(1) pb by (simp add: frac_le)
    finally show ?thesis by (simp add: e2)
  qed
  define x0 where "x0 = real a / real b * 2 powi (24 - d)"
  have p0: "(0::real) < 2 powi (24 - d)" by simp
  have "2 powi (d - 1) * 2 powi (24 - d) < x0"
    unfolding x0_def using lo p0 by (simp only: mult_strict_right_mono)
  moreover have "(2::real) powi (d - 1) * 2 powi (24 - d) = 2 ^ 23"
    by (simp add: power_int_add[symmetric])
  ultimately have x0lo: "2 ^ 23 < x0" by simp
  have "x0 < 2 powi (d + 1) * 2 powi (24 - d)"
    unfolding x0_def using hi p0 by (simp only: mult_strict_right_mono)
  moreover have "(2::real) powi (d + 1) * 2 powi (24 - d) = 2 ^ 25"
    by (simp add: power_int_add[symmetric])
  ultimately have x0hi: "x0 < 2 ^ 25" by simp
  have cond: "(fst (sc (24 - d)) div snd (sc (24 - d)) < 2 ^ 24) = (x0 < 2 ^ 24)"
  proof -
    have "(fst (sc (24 - d)) div snd (sc (24 - d)) < 2 ^ 24)
        = (fst (sc (24 - d)) < 2 ^ 24 * snd (sc (24 - d)))"
      using Q[of "24 - d"] by (simp add: div_less_iff_less_mult)
    also have "\<dots> = (real (fst (sc (24 - d))) < 2 ^ 24 * real (snd (sc (24 - d))))"
      by (metis of_nat_less_iff of_nat_mult of_nat_numeral of_nat_power)
    also have "\<dots> = (real (fst (sc (24 - d))) / real (snd (sc (24 - d))) < 2 ^ 24)"
      using Q[of "24 - d"] by (simp add: field_simps)
    finally show ?thesis by (simp add: ratio x0_def)
  qed
  have xr: "2 ^ 23 \<le> x \<and> x < 2 ^ 24"
  proof (cases "x0 < 2 ^ 24")
    case True
    then have "s = 24 - d" unfolding s_def cond by (simp only: if_True)
    then have "x = x0" by (simp add: x_def x0_def)
    then show ?thesis using True x0lo by simp
  next
    case False
    then have "s = 23 - d" unfolding s_def cond by (simp only: if_False)
    moreover have "(2::real) powi (24 - d) = 2 powi (23 - d) * 2"
      using power_int_add[of "2::real" "23 - d" 1] by simp
    ultimately have "x0 = x * 2" by (simp add: x_def x0_def)
    then show ?thesis using False x0hi by simp
  qed
  have near: "\<bar>x - real m\<bar> \<le> 1 / 2"
    using round_half_even_near[OF Q[of s], of "fst (sc s)"] by (simp add: ratio m_def x_def)
  have "2 ^ 23 - 1 / 2 \<le> real m" "real m \<le> 2 ^ 24 + 1 / 2" using near xr by linarith+
  then have "real (8388607 :: nat) < real m" "real m < real (16777217 :: nat)" by simp_all
  then have "8388607 < m" "m < 16777217" by (simp_all only: of_nat_less_iff)
  then have mr: "2 ^ 23 \<le> m" "m \<le> 2 ^ 24" by simp_all
  have ex: "a \<le> 2 ^ 64 \<and> b \<le> 2 ^ 64 \<longrightarrow> - 41 \<le> s \<and> s \<le> 88"
  proof
    assume "a \<le> 2 ^ 64 \<and> b \<le> 2 ^ 64"
    then have "a < 2 ^ 65" "b < 2 ^ 65" by simp_all
    then have "la \<le> 65" "lb \<le> 65"
      using significant_bits_le[of a 65] significant_bits_le[of b 65] by (simp_all add: la_def lb_def)
    then have "- 64 \<le> d" "d \<le> 64" using ba(1) bb(1) by (simp_all add: d_def)
    moreover have "s = 24 - d \<or> s = 23 - d" by (simp add: s_def)
    ultimately show "- 41 \<le> s \<and> s \<le> 88" by auto
  qed
  show ?thesis
    by (intro exI[of _ m] exI[of _ s] conjI val mr near[unfolded x_def] ex)
qed

text \<open>
  \<open>float_of_size_t n\<close> is \<open>m * 2 ^ e\<close> for a significand \<open>m\<close> of at most 24 bits that is
  within one half of \<open>n / 2 ^ e\<close>.
\<close>

lemma float_of_size_t_nearest:
  "\<exists>m e. float_of_size_t n = m * 2 ^ e \<and> m \<le> 2 ^ 24 \<and>
          \<bar>real n / 2 ^ e - real m\<bar> \<le> 1 / 2 \<and> (n < 2 ^ 24 \<longrightarrow> e = 0)"
proof -
  define e where "e = significant_bits n - 24"
  define m where "m = round_half_even n (2 ^ e)"
  have v: "float_of_size_t n = m * 2 ^ e"
    by (simp add: float_of_size_t_def Let_def m_def e_def)
  have near: "\<bar>real n / 2 ^ e - real m\<bar> \<le> 1 / 2"
    using round_half_even_near[of "2 ^ e" n] by (simp add: m_def)
  have "n < 2 ^ significant_bits n"
    using significant_bits_bounds[of n] by (cases "n = 0") simp_all
  also have "(2::nat) ^ significant_bits n \<le> 2 ^ (24 + e)"
    by (intro power_increasing) (simp_all add: e_def)
  finally have "real n < 2 ^ (24 + e)"
    by (metis of_nat_less_iff of_nat_numeral of_nat_power)
  then have "real n / 2 ^ e < 2 ^ 24"
    by (simp add: power_add field_simps)
  with near have "real m \<le> 2 ^ 24 + 1 / 2" by linarith
  then have "real m < real (16777217 :: nat)" by simp
  then have "m < 16777217" by (simp only: of_nat_less_iff)
  then have mr: "m \<le> 2 ^ 24" by simp
  have small: "n < 2 ^ 24 \<longrightarrow> e = 0"
    using significant_bits_le[of n 24] by (simp add: e_def)
  show ?thesis
    by (intro exI[of _ m] exI[of _ e] conjI v mr near small)
qed

section \<open>The insertion sorts meet the contract\<close>

lemma strict_weak_onD1: "strict_weak_on A lt \<Longrightarrow> a \<in> A \<Longrightarrow> b \<in> A \<Longrightarrow> lt a b \<Longrightarrow> \<not> lt b a"
  unfolding strict_weak_on_def by blast

lemma strict_weak_onD2:
  "strict_weak_on A lt \<Longrightarrow> a \<in> A \<Longrightarrow> b \<in> A \<Longrightarrow> c \<in> A \<Longrightarrow> \<not> lt a b \<Longrightarrow> \<not> lt b c \<Longrightarrow> \<not> lt a c"
  unfolding strict_weak_on_def by blast

lemma strict_weak_on_subset: "strict_weak_on A lt \<Longrightarrow> B \<subseteq> A \<Longrightarrow> strict_weak_on B lt"
  unfolding strict_weak_on_def by blast

lemma set_insert_before: "set (insert_before lt x ys) = insert x (set ys)"
  by (induction ys) auto

lemma mset_insert_before: "mset (insert_before lt x ys) = add_mset x (mset ys)"
  by (induction ys) auto

lemma sorted_insert_before:
  assumes "strict_weak_on A lt" "x \<in> A" "set ys \<subseteq> A" "sorted_wrt (\<lambda>a b. \<not> lt b a) ys"
  shows "sorted_wrt (\<lambda>a b. \<not> lt b a) (insert_before lt x ys)"
  using assms(3,4)
proof (induction ys)
  case Nil
  then show ?case by simp
next
  case (Cons y ys)
  show ?case
  proof (cases "lt y x")
    case True
    have "\<not> lt x y" using strict_weak_onD1[OF assms(1) _ _ True] Cons.prems(1) assms(2) by simp
    then show ?thesis using True Cons by (auto simp: set_insert_before)
  next
    case False
    have "\<not> lt z x" if "z \<in> set ys" for z
    proof -
      have "\<not> lt z y" using Cons.prems(2) that by auto
      then show ?thesis
        using strict_weak_onD2[OF assms(1), of z y x] False that Cons.prems(1) assms(2) by auto
    qed
    then show ?thesis using False Cons.prems(2) by auto
  qed
qed

lemma mset_stable_insertion_sort: "mset (stable_insertion_sort lt xs) = mset xs"
  unfolding stable_insertion_sort_def by (induction xs) (auto simp: mset_insert_before)

lemma sorted_stable_insertion_sort:
  "strict_weak_on A lt \<Longrightarrow> set xs \<subseteq> A \<Longrightarrow> sorted_wrt (\<lambda>a b. \<not> lt b a) (stable_insertion_sort lt xs)"
proof (induction xs)
  case Nil
  then show ?case by (simp add: stable_insertion_sort_def)
next
  case (Cons x xs)
  have s: "set (stable_insertion_sort lt xs) \<subseteq> A"
    using Cons.prems(2) mset_stable_insertion_sort[of lt xs] by (metis set_mset_mset set_subset_Cons subset_trans)
  have "sorted_wrt (\<lambda>a b. \<not> lt b a) (insert_before lt x (stable_insertion_sort lt xs))"
    by (rule sorted_insert_before[OF Cons.prems(1) _ s]) (use Cons in auto)
  then show ?case by (simp add: stable_insertion_sort_def)
qed

lemma sort_contract_stable_insertion_sort: "sort_contract stable_insertion_sort"
  unfolding sort_contract_def
  using mset_stable_insertion_sort sorted_stable_insertion_sort by blast

lemma set_insert_after: "set (insert_after lt x ys) = insert x (set ys)"
  by (induction ys) auto

lemma mset_insert_after: "mset (insert_after lt x ys) = add_mset x (mset ys)"
  by (induction ys) auto

lemma sorted_insert_after:
  assumes "strict_weak_on A lt" "x \<in> A" "set ys \<subseteq> A" "sorted_wrt (\<lambda>a b. \<not> lt b a) ys"
  shows "sorted_wrt (\<lambda>a b. \<not> lt b a) (insert_after lt x ys)"
  using assms(3,4)
proof (induction ys)
  case Nil
  then show ?case by simp
next
  case (Cons y ys)
  show ?case
  proof (cases "lt x y")
    case True
    have nyx: "\<not> lt y x" using strict_weak_onD1[OF assms(1) _ _ True] Cons.prems(1) assms(2) by simp
    have "\<not> lt z x" if "z \<in> set ys" for z
    proof -
      have "\<not> lt z y" using Cons.prems(2) that by auto
      then show ?thesis
        using strict_weak_onD2[OF assms(1), of z y x] nyx that Cons.prems(1) assms(2) by auto
    qed
    then show ?thesis using True nyx Cons.prems(2) by auto
  next
    case False
    then show ?thesis using Cons by (auto simp: set_insert_after)
  qed
qed

lemma mset_reversing_insertion_sort: "mset (reversing_insertion_sort lt xs) = mset xs"
  unfolding reversing_insertion_sort_def by (induction xs) (auto simp: mset_insert_after)

lemma sorted_reversing_insertion_sort:
  "strict_weak_on A lt \<Longrightarrow> set xs \<subseteq> A \<Longrightarrow> sorted_wrt (\<lambda>a b. \<not> lt b a) (reversing_insertion_sort lt xs)"
proof (induction xs)
  case Nil
  then show ?case by (simp add: reversing_insertion_sort_def)
next
  case (Cons x xs)
  have s: "set (reversing_insertion_sort lt xs) \<subseteq> A"
    using Cons.prems(2) mset_reversing_insertion_sort[of lt xs] by (metis set_mset_mset set_subset_Cons subset_trans)
  have "sorted_wrt (\<lambda>a b. \<not> lt b a) (insert_after lt x (reversing_insertion_sort lt xs))"
    by (rule sorted_insert_after[OF Cons.prems(1) _ s]) (use Cons in auto)
  then show ?case by (simp add: reversing_insertion_sort_def)
qed

lemma sort_contract_reversing_insertion_sort: "sort_contract reversing_insertion_sort"
  unfolding sort_contract_def
  using mset_reversing_insertion_sort sorted_reversing_insertion_sort by blast

lemma sort_contractD:
  assumes "sort_contract srt" "strict_weak_on (set xs) lt"
  shows "mset (srt lt xs) = mset xs" "sorted_wrt (\<lambda>a b. \<not> lt b a) (srt lt xs)"
  using assms unfolding sort_contract_def by blast+

section \<open>Concrete builds\<close>

lemma single_point_build:
  "RangeFilterTreeIndex_public stable_insertion_sort (Array2 [[1, 0]]) (Array1 [1 / 2]) 1
     = Inr single_point_index"
  by (simp add: build_defs size_t_defs single_point_index_def)

lemma eight_point_build:
  "RangeFilterTreeIndex_public stable_insertion_sort
     (Array2 [[0], [1], [2], [3], [4], [5], [6], [7]]) (Array1 [0, 1, 2, 3, 4, 5, 6, 7]) 2
     = Inr eight_point_index"
  by (simp add: build_defs size_t_defs eight_point_index_def upt_rec)

lemma two_point_build:
  "RangeFilterTreeIndex_public stable_insertion_sort (Array2 [[0], [1]]) (Array1 [0, 1]) 4
     = Inr (flat_index [0, 1] [0, 1] 4 [[0], [1]])"
  by (simp add: build_defs size_t_defs flat_index_def upt_rec)

lemma tied_build:
  "RangeFilterTreeIndex_public stable_insertion_sort (Array2 [[0], [1], [1]]) (Array1 [0, 2, 1]) 1000
     = Inr tied_index"
  by (simp add: build_defs size_t_defs fixture_defs upt_rec)

lemma untied_build:
  "RangeFilterTreeIndex_public stable_insertion_sort (Array2 [[0], [1], [1]]) (Array1 [0, 1, 2]) 1000
     = Inr untied_index"
  by (simp add: build_defs size_t_defs fixture_defs upt_rec)

lemma three_point_build:
  "RangeFilterTreeIndex_public stable_insertion_sort (Array2 [[0], [1], [2]]) (Array1 [1, 2, 3]) 1000
     = Inr three_point_index"
  by (simp add: build_defs size_t_defs fixture_defs upt_rec)

section \<open>The boundary searches never return index 0\<close>

text \<open>
  C2. The claim: \<open>first_greater_than x\<close> is the smallest index whose filter value exceeds
  \<open>x\<close>, and 0 when already the first value does (likewise for
  \<open>first_greater_than_or_equal_to\<close>). The loop never reads index 0: on the filter values
  \<open>[0.5]\<close> and \<open>x = 0\<close>, and on \<open>[5, 6, 7]\<close> with \<open>x = 0\<close> and \<open>x = 5\<close>, where the first
  value satisfies the predicate, both searches return 1.
\<close>

theorem boundary_search_skips_index_zero:
  "first_greater_than [1 / 2 :: real] 0 = 1 \<and>
   first_greater_than_or_equal_to [1 / 2 :: real] 0 = 1 \<and>
   first_greater_than [5, 6, 7 :: real] 0 = 1 \<and>
   first_greater_than_or_equal_to [5, 6, 7 :: real] 5 = 1"
  by (simp add: first_greater_than_def first_greater_than_or_equal_to_def
      first_greater_than_loop.simps first_greater_than_or_equal_to_loop.simps)

section \<open>The single-point scenario\<close>

text \<open>
  C4. The claim: for the index built from the one point \<open>[1, 0]\<close> with filter value
  \<open>0.5\<close> and cutoff 1, a batch search for \<open>q = [1, 0]\<close>, range \<open>[0, 1]\<close> and \<open>k = 1\<close>
  returns \<open>ids = [[0]]\<close> and \<open>dists = [[0.0]]\<close> under each strategy. The code builds the
  index, finds the window \<open>[1, 1)\<close> empty under each strategy (whatever the bucket
  indexes and the distance kernel are), and returns the padding: id 0 with distance
  \<open>float_max\<close>.
\<close>

theorem single_point_scenario_returns_padding:
  "RangeFilterTreeIndex_public stable_insertion_sort (Array2 [[1, 0]]) (Array1 [1 / 2]) 1
     = Inr single_point_index \<and>
   fst (batch_search stable_insertion_sort sq distance [[1, 0]] [(0, 1)] 1
          ''fenwick_tree'' (qp\<lparr>k := 1\<rparr>)
          \<lparr>the_index = single_point_index, standard_output = out\<rparr>)
     = Inr ([[0]], [[float_max]]) \<and>
   fst (batch_search stable_insertion_sort sq distance [[1, 0]] [(0, 1)] 1
          ''optimized_postfilter'' (qp\<lparr>k := 1\<rparr>)
          \<lparr>the_index = single_point_index, standard_output = out\<rparr>)
     = Inr ([[0]], [[float_max]]) \<and>
   fst (batch_search stable_insertion_sort sq distance [[1, 0]] [(0, 1)] 1
          ''three_split'' (qp\<lparr>k := 1\<rparr>)
          \<lparr>the_index = single_point_index, standard_output = out\<rparr>)
     = Inr ([[0]], [[float_max]]) \<and>
   float_max \<noteq> Finite 0"
  by (simp add: build_defs search_defs run_defs size_t_defs single_point_index_def float_max_def)

section \<open>A fenwick plan that covers positions twice\<close>

text \<open>
  C1. The claim: the planned buckets and the brute-forced residue of a
  \<open>fenwick_tree_search\<close> cover the window exactly, no position twice. On the index of
  eight points with filter values \<open>0..7\<close> and cutoff 2, the range \<open>[1, 6]\<close> has the window
  \<open>[2, 6)\<close>. The seeding loop of level 0 does not stop at the first bucket that fits: it
  plans the buckets 1 and 2 and keeps only the second as \<open>last_range = (4, 6)\<close>, so the
  residue loop scans \<open>[2, 4)\<close> again: the positions 2 and 3 are covered by bucket 1 and
  by the residue, and with exact bucket indexes and \<open>k = 10\<close> the result holds the
  points 2 and 3 twice.
\<close>

theorem fenwick_plan_covers_twice:
  "RangeFilterTreeIndex_public stable_insertion_sort
     (Array2 [[0], [1], [2], [3], [4], [5], [6], [7]]) (Array1 [0, 1, 2, 3, 4, 5, 6, 7]) 2
     = Inr eight_point_index \<and>
   first_greater_than (filter_values eight_point_index) 1 = 2 \<and>
   first_greater_than_or_equal_to (filter_values eight_point_index) 6 = 6 \<and>
   fenwick_plan (bucket_sizes eight_point_index) 2 6
     = \<lparr>indices_to_search = [(0, 1), (0, 2)], last_range = (4, 6)\<rparr> \<and>
   planned_positions eight_point_index (1, 6) = [2, 3, 4, 5, 2, 3] \<and>
   \<not> distinct (planned_positions eight_point_index (1, 6)) \<and>
   fst (fenwick_tree_search stable_insertion_sort (bucket_query_of eight_point_index) squared_l2
          eight_point_index [0] (1, 6) (example_qp\<lparr>k := 10\<rparr>))
     = Inr [(2, Finite 4), (2, Finite 4), (3, Finite 9), (3, Finite 9),
            (4, Finite 16), (5, Finite 25)]"
  by (simp add: build_defs planned_positions_def search_defs run_defs size_t_defs fixture_defs
      upt_rec)

section \<open>An unchecked read past an empty pyramid\<close>

text \<open>
  C10. The claim: every container access of \<open>optimized_postfiltering_search\<close> is in
  bounds, also when the pyramid has no level. On the index of two points with filter
  values \<open>[0, 1]\<close> and cutoff 4 no level is built; for the range \<open>[0, 2]\<close> the window
  \<open>[1, 2)\<close> is not small enough for the fallback, the level scan finds nothing, and
  \<open>_bucket_sizes[0]\<close> is read from the empty vector.
\<close>

theorem optimized_postfilter_reads_empty_pyramid:
  "RangeFilterTreeIndex_public stable_insertion_sort (Array2 [[0], [1]]) (Array1 [0, 1]) 4
     = Inr (flat_index [0, 1] [0, 1] 4 [[0], [1]]) \<and>
   bucket_sizes (flat_index [0, 1] [0, 1] 4 [[0], [1]]) = [] \<and>
   optimized_postfiltering_search srt sq distance
       (flat_index [0, 1] [0, 1] 4 [[0], [1]]) query (0, 2) qp
     = (Inl undefined_behaviour, [])"
  by (simp add: build_defs search_defs run_defs size_t_defs flat_index_def upt_rec)

section \<open>What a successful build returns\<close>

lemma level_loop_sizes:
  "level_loop n fv w acc = Inr acc' \<Longrightarrow> 0 < w \<Longrightarrow>
     \<exists>m. fst acc' = fst acc @ map (\<lambda>j. w * 2 ^ j) [0..<m] \<and>
         (\<forall>j<m. w * 2 ^ j < 2 * n) \<and> 2 * n \<le> w * 2 ^ m"
proof (induction n fv w acc rule: level_loop.induct)
  case (1 n fv w acc)
  show ?case
  proof (cases "w < 2 * n")
    case True
    let ?acc2 = "(fst acc @ [w],
                  fst (snd acc) @ [map (\<lambda>bucket_id. bucket_id * w) [0..<(n + w - 1) div w]],
                  snd (snd acc) @ [map (make_bucket fv n w) [0..<(n + w - 1) div w]])"
    have rec: "level_loop n fv (w * 2) ?acc2 = Inr acc'"
      using "1.prems" True by (simp add: level_loop.simps[of n fv w] Let_def)
    have "0 < w * 2" using "1.prems"(2) by simp
    from "1.IH"[OF True _ refl rec this] "1.prems"(2)
    obtain m where m: "fst acc' = fst ?acc2 @ map (\<lambda>j. w * 2 * 2 ^ j) [0..<m]"
      "\<forall>j<m. w * 2 * 2 ^ j < 2 * n" "2 * n \<le> w * 2 * 2 ^ m"
      by auto
    have "fst acc' = fst acc @ map (\<lambda>j. w * 2 ^ j) [0..<Suc m]"
      using m(1) by (simp add: map_upt_Suc mult.assoc del: upt_Suc)
    moreover have "\<forall>j<Suc m. w * 2 ^ j < 2 * n"
    proof (intro allI impI)
      fix j assume "j < Suc m"
      show "w * 2 ^ j < 2 * n"
      proof (cases j)
        case 0
        then show ?thesis using True by simp
      next
        case (Suc j')
        then show ?thesis using m(2) \<open>j < Suc m\<close> by (auto simp: mult.assoc)
      qed
    qed
    moreover have "2 * n \<le> w * 2 ^ Suc m" using m(3) by (simp add: mult.assoc)
    ultimately show ?thesis by blast
  next
    case False
    then have "acc' = acc" using "1.prems" by (simp add: level_loop.simps[of n fv w])
    then show ?thesis using False by (intro exI[of _ 0]) simp
  qed
qed

lemma private_Inr:
  assumes "RangeFilterTreeIndex_private pts fv decoding c = Inr idx"
  shows "sorted_index_to_original_point_id idx = decoding" "filter_values idx = fv"
    "points idx = pts" "cutoff idx = c"
    "level_loop (length pts) fv (size_t_of_int c) ([], [], [])
       = Inr (bucket_sizes idx, starts idx, spatial_indices idx)"
  using assms unfolding RangeFilterTreeIndex_private_def
  by (auto split: sum.splits)

lemma strict_weak_on_key: "strict_weak_on A (\<lambda>i j. (f i :: 'a::linorder) < f j)"
  unfolding strict_weak_on_def by auto

lemma public_Inr:
  assumes "RangeFilterTreeIndex_public srt points_arr filter_arr c = Inr idx"
  obtains pts fvs where "points_arr = Array2 pts" "filter_arr = Array1 fvs"
    "length fvs = length pts"
    "length pts \<le> length (srt (\<lambda>i j. fvs ! i < fvs ! j) [0..<length pts])"
    "RangeFilterTreeIndex_private
       (map (\<lambda>sorted_id. pts ! (srt (\<lambda>i j. fvs ! i < fvs ! j) [0..<length pts] ! sorted_id)) [0..<length pts])
       (map (\<lambda>i. fvs ! (srt (\<lambda>i j. fvs ! i < fvs ! j) [0..<length pts] ! i)) [0..<length pts])
       (map (\<lambda>sorted_id. srt (\<lambda>i j. fvs ! i < fvs ! j) [0..<length pts] ! sorted_id) [0..<length pts])
       c = Inr idx"
  using assms unfolding RangeFilterTreeIndex_public_def
  by (auto simp: Let_def split: array_t.splits if_splits)

lemma build_layout:
  assumes "sort_contract srt"
    and "RangeFilterTreeIndex_public srt points_arr filter_arr c = Inr idx"
  shows "\<exists>pts fvs. points_arr = Array2 pts \<and> filter_arr = Array1 fvs \<and>
    length fvs = length pts \<and>
    sorted_index_to_original_point_id idx = srt (\<lambda>i j. fvs ! i < fvs ! j) [0..<length pts] \<and>
    mset (sorted_index_to_original_point_id idx) = mset [0..<length pts] \<and>
    sorted_wrt (\<lambda>a b. fvs ! a \<le> fvs ! b) (sorted_index_to_original_point_id idx) \<and>
    filter_values idx = map (\<lambda>i. fvs ! i) (sorted_index_to_original_point_id idx) \<and>
    points idx = map (\<lambda>i. pts ! i) (sorted_index_to_original_point_id idx) \<and>
    cutoff idx = c \<and>
    level_loop (length pts) (filter_values idx) (size_t_of_int c) ([], [], [])
       = Inr (bucket_sizes idx, starts idx, spatial_indices idx)"
proof (rule public_Inr[OF assms(2)])
  fix pts fvs
  assume a: "points_arr = Array2 pts" "filter_arr = Array1 fvs" "length fvs = length pts"
    and "length pts \<le> length (srt (\<lambda>i j. fvs ! i < fvs ! j) [0..<length pts])"
    and p: "RangeFilterTreeIndex_private
       (map (\<lambda>sorted_id. pts ! (srt (\<lambda>i j. fvs ! i < fvs ! j) [0..<length pts] ! sorted_id)) [0..<length pts])
       (map (\<lambda>i. fvs ! (srt (\<lambda>i j. fvs ! i < fvs ! j) [0..<length pts] ! i)) [0..<length pts])
       (map (\<lambda>sorted_id. srt (\<lambda>i j. fvs ! i < fvs ! j) [0..<length pts] ! sorted_id) [0..<length pts])
       c = Inr idx"
  define sigma where "sigma = srt (\<lambda>i j. fvs ! i < fvs ! j) [0..<length pts]"
  have ms: "mset sigma = mset [0..<length pts]"
    and so: "sorted_wrt (\<lambda>a b. \<not> fvs ! b < fvs ! a) sigma"
    unfolding sigma_def
    using sort_contractD[OF assms(1) strict_weak_on_key[of "set [0..<length pts]" "\<lambda>i. fvs ! i"]]
    by auto
  have len: "length sigma = length pts" using mset_eq_length[OF ms] by simp
  have m1: "map (\<lambda>i. sigma ! i) [0..<length pts] = sigma"
    using len by (metis map_nth)
  have m2: "map (\<lambda>i. fvs ! (sigma ! i)) [0..<length pts] = map (\<lambda>i. fvs ! i) sigma"
    using len by (intro nth_equalityI) auto
  have m3: "map (\<lambda>i. pts ! (sigma ! i)) [0..<length pts] = map (\<lambda>i. pts ! i) sigma"
    using len by (intro nth_equalityI) auto
  have so': "sorted_wrt (\<lambda>a b. fvs ! a \<le> fvs ! b) sigma"
    using so by (simp add: not_less)
  note pr = private_Inr[OF p[folded sigma_def, unfolded m1 m2 m3]]
  have ll: "level_loop (length pts) (filter_values idx) (size_t_of_int c) ([], [], [])
       = Inr (bucket_sizes idx, starts idx, spatial_indices idx)"
    using pr(5) pr(2) len by simp
  have e1: "sorted_index_to_original_point_id idx = srt (\<lambda>i j. fvs ! i < fvs ! j) [0..<length pts]"
    using pr(1) sigma_def by simp
  show ?thesis
    apply (rule exI[of _ pts], rule exI[of _ fvs])
    using a e1 ms so' pr(1) pr(2) pr(3) pr(4) ll by simp
qed

lemma build_filter_values_sorted:
  assumes "sort_contract srt"
    and "RangeFilterTreeIndex_public srt points_arr filter_arr c = Inr idx"
  shows "sorted (filter_values idx)" "length (filter_values idx) = length (points idx)"
proof -
  from build_layout[OF assms] obtain pts fvs where
    so: "sorted_wrt (\<lambda>a b. fvs ! a \<le> fvs ! b) (sorted_index_to_original_point_id idx)"
    and f2: "filter_values idx = map (\<lambda>i. fvs ! i) (sorted_index_to_original_point_id idx)"
    and f3: "points idx = map (\<lambda>i. pts ! i) (sorted_index_to_original_point_id idx)"
    by (elim exE conjE) (rule that)
  show "sorted (filter_values idx)" using so by (simp add: f2 sorted_wrt_map)
  show "length (filter_values idx) = length (points idx)" by (simp add: f2 f3)
qed

section \<open>The sorted layout\<close>

text \<open>
  C5. After every successful build, with a library sort that meets its contract, the
  stored filter values are non-decreasing and the stored map from sorted index to
  original id is a bijection on \<open>[0, n)\<close>, where \<open>n\<close> is the number of points. The stored
  filter values and points are the caller's, read through that map.
\<close>

theorem sorted_layout_after_build:
  assumes "sort_contract srt"
    and "RangeFilterTreeIndex_public srt points_arr filter_arr c = Inr idx"
  shows "sorted (filter_values idx) \<and>
     length (filter_values idx) = length (points idx) \<and>
     length (sorted_index_to_original_point_id idx) = length (points idx) \<and>
     bij_betw (\<lambda>i. sorted_index_to_original_point_id idx ! i)
       {..<length (points idx)} {..<length (points idx)} \<and>
     (\<exists>pts fvs. points_arr = Array2 pts \<and> filter_arr = Array1 fvs \<and>
        length pts = length (points idx) \<and> length fvs = length (points idx) \<and>
        filter_values idx = map (\<lambda>i. fvs ! i) (sorted_index_to_original_point_id idx) \<and>
        points idx = map (\<lambda>i. pts ! i) (sorted_index_to_original_point_id idx))"
proof -
  from build_layout[OF assms] obtain pts fvs where
    a: "points_arr = Array2 pts" "filter_arr = Array1 fvs" "length fvs = length pts"
    and ms: "mset (sorted_index_to_original_point_id idx) = mset [0..<length pts]"
    and so: "sorted_wrt (\<lambda>a b. fvs ! a \<le> fvs ! b) (sorted_index_to_original_point_id idx)"
    and f2: "filter_values idx = map (\<lambda>i. fvs ! i) (sorted_index_to_original_point_id idx)"
    and f3: "points idx = map (\<lambda>i. pts ! i) (sorted_index_to_original_point_id idx)"
    by (elim exE conjE) (rule that)
  define sigma where "sigma = sorted_index_to_original_point_id idx"
  note f = sigma_def[symmetric] f2[folded sigma_def] f3[folded sigma_def]
  note ms = ms[folded sigma_def] and so = so[folded sigma_def]
  have len: "length sigma = length pts" using mset_eq_length[OF ms] by simp
  have d: "distinct sigma" using mset_eq_imp_distinct_iff[OF ms] by simp
  have s: "set sigma = {..<length pts}" using mset_eq_setD[OF ms] by (simp add: atLeast0LessThan)
  have "bij_betw (\<lambda>i. sigma ! i) {..<length sigma} (set sigma)"
    using d by (simp add: bij_betw_nth)
  then have b: "bij_betw (\<lambda>i. sigma ! i) {..<length pts} {..<length pts}"
    using len s by simp
  have so2: "sorted (map (\<lambda>i. fvs ! i) sigma)"
    using so by (simp add: sorted_wrt_map)
  have lp: "length (points idx) = length pts" using f(3) len by simp
  have ex: "\<exists>pts' fvs'. points_arr = Array2 pts' \<and> filter_arr = Array1 fvs' \<and>
        length pts' = length (points idx) \<and> length fvs' = length (points idx) \<and>
        filter_values idx = map (\<lambda>i. fvs' ! i) (sorted_index_to_original_point_id idx) \<and>
        points idx = map (\<lambda>i. pts' ! i) (sorted_index_to_original_point_id idx)"
    using a f lp by (intro exI[of _ pts] exI[of _ fvs]) simp
  have "sorted (filter_values idx)" using so2 f(2) by simp
  moreover have "length (filter_values idx) = length (points idx)" using f(2,3) by simp
  moreover have "length (sorted_index_to_original_point_id idx) = length (points idx)"
    using f(1,3) by simp
  moreover have "bij_betw (\<lambda>i. sorted_index_to_original_point_id idx ! i)
       {..<length (points idx)} {..<length (points idx)}"
    using b f(1) lp by simp
  ultimately show ?thesis using ex by (intro conjI)
qed

text \<open>
  The theorem at the three points with filter values \<open>[0, 2, 1]\<close>, built with the stable
  insertion sort: the stored order is \<open>[0, 2, 1]\<close>.
\<close>

theorem sorted_layout_after_build_witness:
  "sort_contract (stable_insertion_sort :: nat sorter) \<and>
   RangeFilterTreeIndex_public stable_insertion_sort (Array2 [[0], [1], [1]]) (Array1 [0, 2, 1]) 1000
     = Inr tied_index \<and>
   sorted (filter_values tied_index) \<and>
   length (points tied_index) = 3 \<and>
   sorted_index_to_original_point_id tied_index = [0, 2, 1] \<and>
   bij_betw (\<lambda>i. sorted_index_to_original_point_id tied_index ! i)
     {..<length (points tied_index)} {..<length (points tied_index)}"
  using sorted_layout_after_build[OF sort_contract_stable_insertion_sort tied_build]
    sort_contract_stable_insertion_sort tied_build
  by (simp add: tied_index_def flat_index_def)

section \<open>The shape of the pyramid\<close>

text \<open>
  C3, as the claim states it: the largest built level has a width of at least \<open>2n\<close>. For
  eight points and cutoff 2 the built widths are 2, 4 and 8, and 8 is below 16.
\<close>

theorem largest_level_reaches_twice_n_counterexample: "RangeFilterTreeIndex_public stable_insertion_sort
     (Array2 [[0], [1], [2], [3], [4], [5], [6], [7]]) (Array1 [0, 1, 2, 3, 4, 5, 6, 7]) 2
     = Inr eight_point_index \<and>
   length (points eight_point_index) = 8 \<and>
   bucket_sizes eight_point_index = [2, 4, 8] \<and>
   \<not> 2 * 8 \<le> last (bucket_sizes eight_point_index)"
  using eight_point_build by (simp add: eight_point_index_def)

text \<open>
  C3, amended. For every successful build with a cutoff from 1 up to the \<open>int32_t\<close>
  maximum, the widths are \<open>cutoff * 2 ^ j\<close> for \<open>j = 0, ..., m - 1\<close>, each of them below
  \<open>2n\<close>, and \<open>cutoff * 2 ^ m\<close> is the first that reaches \<open>2n\<close>: the loop stops before it
  builds that level. If a level is built at all, the largest has \<open>n \<le> w < 2n\<close>.
\<close>

theorem pyramid_levels_below_twice_n:
  assumes "RangeFilterTreeIndex_public srt points_arr filter_arr c = Inr idx"
    and "1 \<le> c" and "c < 2 ^ 31"
  shows "bucket_sizes idx = map (\<lambda>j. nat c * 2 ^ j) [0..<length (bucket_sizes idx)] \<and>
     (\<forall>j<length (bucket_sizes idx). nat c * 2 ^ j < 2 * length (points idx)) \<and>
     2 * length (points idx) \<le> nat c * 2 ^ length (bucket_sizes idx) \<and>
     (bucket_sizes idx \<noteq> [] \<longrightarrow>
        length (points idx) \<le> last (bucket_sizes idx) \<and>
        last (bucket_sizes idx) < 2 * length (points idx))"
proof -
  have "\<exists>pts' fv' dec'. RangeFilterTreeIndex_private pts' (fv' :: 'b list) dec' c = Inr idx"
    by (rule public_Inr[OF assms(1)]) (intro exI)
  then obtain pts' and fv' :: "'b list" and dec' where
    p: "RangeFilterTreeIndex_private pts' fv' dec' c = Inr idx"
    by (elim exE)
  have sz: "size_t_of_int c = nat c"
    using assms(2,3) by (simp add: size_t_of_int_def)
  from private_Inr[OF p] have
    ll: "level_loop (length (points idx)) fv' (nat c) ([], [], [])
       = Inr (bucket_sizes idx, starts idx, spatial_indices idx)"
    by (simp add: sz)
  have "0 < nat c" using assms(2) by simp
  from level_loop_sizes[OF ll this] obtain m where
    m: "bucket_sizes idx = map (\<lambda>j. nat c * 2 ^ j) [0..<m]"
      "\<forall>j<m. nat c * 2 ^ j < 2 * length (points idx)"
      "2 * length (points idx) \<le> nat c * 2 ^ m"
    by auto
  have lm: "length (bucket_sizes idx) = m" using arg_cong[OF m(1), of length] by simp
  have last: "length (points idx) \<le> last (bucket_sizes idx) \<and>
        last (bucket_sizes idx) < 2 * length (points idx)" if "bucket_sizes idx \<noteq> []"
  proof -
    from that lm obtain m' where m': "m = Suc m'" by (cases m) auto
    have l: "last (bucket_sizes idx) = nat c * 2 ^ m'"
      using m(1) unfolding m' by simp
    have "nat c * 2 ^ m' < 2 * length (points idx)" using m(2) m' by simp
    moreover have "2 * length (points idx) \<le> 2 * (nat c * 2 ^ m')" using m(3) m' by simp
    ultimately show ?thesis using l by simp
  qed
  show ?thesis using m lm last by simp
qed

text \<open>The theorem at eight points and cutoff 2: three levels, the largest of width 8.\<close>

theorem pyramid_levels_below_twice_n_witness: "RangeFilterTreeIndex_public stable_insertion_sort
     (Array2 [[0], [1], [2], [3], [4], [5], [6], [7]]) (Array1 [0, 1, 2, 3, 4, 5, 6, 7]) 2
     = Inr eight_point_index \<and> (1::int) \<le> 2 \<and> (2::int) < 2 ^ 31 \<and>
   bucket_sizes eight_point_index = [2 * 2 ^ 0, 2 * 2 ^ 1, 2 * 2 ^ 2] \<and>
   2 * length (points eight_point_index) \<le> 2 * 2 ^ 3 \<and>
   length (points eight_point_index) \<le> last (bucket_sizes eight_point_index) \<and>
   last (bucket_sizes eight_point_index) < 2 * length (points eight_point_index)"
  using pyramid_levels_below_twice_n[OF eight_point_build] eight_point_build
  by (simp add: eight_point_index_def)

section \<open>Ties in the build-time sort\<close>

lemma sorted_perm_unique:
  fixes f :: "nat \<Rightarrow> 'a::linorder"
  assumes "mset xs = mset zs" "mset ys = mset zs"
    and "sorted_wrt (\<lambda>a b. f a \<le> f b) xs" "sorted_wrt (\<lambda>a b. f a \<le> f b) ys"
    and "distinct zs" "inj_on f (set zs)"
  shows "xs = ys"
proof -
  have sx: "set xs = set zs" and sy: "set ys = set zs"
    using mset_eq_setD[OF assms(1)] mset_eq_setD[OF assms(2)] by simp_all
  have dx: "distinct xs" and dy: "distinct ys"
    using mset_eq_imp_distinct_iff[OF assms(1)] mset_eq_imp_distinct_iff[OF assms(2)] assms(5)
    by simp_all
  have s1: "sorted (map f xs)" and s2: "sorted (map f ys)"
    using assms(3,4) by (simp_all add: sorted_wrt_map)
  have d1: "distinct (map f xs)" and d2: "distinct (map f ys)"
    using dx dy assms(6) sx sy by (simp_all add: distinct_map)
  have "set (map f xs) = set (map f ys)" using sx sy by simp
  then have "map f xs = map f ys"
    by (rule sorted_distinct_set_unique[OF s1 d1 s2 d2])
  moreover have "inj_on f (set xs \<union> set ys)" using assms(6) sx sy by simp
  ultimately show ?thesis by (simp add: inj_on_map_eq_map)
qed

lemma sort_by_distinct_keys_unique:
  fixes fvs :: "'f::linorder list"
  assumes "sort_contract srt" "sort_contract srt'" "distinct fvs" "n \<le> length fvs"
  shows "srt (\<lambda>i j. fvs ! i < fvs ! j) [0..<n] = srt' (\<lambda>i j. fvs ! i < fvs ! j) [0..<n]"
proof -
  note k = strict_weak_on_key[of "set [0..<n]" "\<lambda>i. fvs ! i"]
  have "inj_on (\<lambda>i. fvs ! i) (set [0..<n])"
    using assms(3,4) by (intro inj_on_nth) auto
  then show ?thesis
    using sort_contractD[OF assms(1) k] sort_contractD[OF assms(2) k]
    by (intro sorted_perm_unique[where f = "\<lambda>i. fvs ! i" and zs = "[0..<n]"])
       (simp_all add: not_less)
qed

text \<open>
  The contract alone does not fix the order of ties. A sort that meets it and places an
  element after its equals turns the filter values \<open>[5, 5]\<close> into the order \<open>[1, 0]\<close>.
\<close>

lemma contract_leaves_ties_open:
  "sort_contract (reversing_insertion_sort :: nat sorter) \<and>
   RangeFilterTreeIndex_public reversing_insertion_sort (Array2 [[0], [1]]) (Array1 [5, 5]) 1000
     = Inr (flat_index [1, 0] [5, 5] 1000 [[1], [0]]) \<and>
   sorted_index_to_original_point_id (flat_index [1, 0] [5, 5] 1000 [[1], [0]]) = [1, 0]"
  using sort_contract_reversing_insertion_sort
  by (simp add: build_defs size_t_defs flat_index_def upt_rec)

text \<open>
  When the filter values are pairwise distinct, the constructor's outcome is the same for
  every library sort that meets the contract.
\<close>

lemma layout_determined_without_ties:
  fixes fvs :: "'f::linorder list"
  assumes "sort_contract srt" "sort_contract srt'" "distinct fvs"
  shows "RangeFilterTreeIndex_public srt (Array2 pts) (Array1 fvs) c
       = RangeFilterTreeIndex_public srt' (Array2 pts) (Array1 fvs) c"
proof (cases "length fvs = length pts")
  case True
  have "srt (\<lambda>i j. fvs ! i < fvs ! j) [0..<length pts]
      = srt' (\<lambda>i j. fvs ! i < fvs ! j) [0..<length pts]"
    using sort_by_distinct_keys_unique[OF assms, of "length pts"] True by simp
  then show ?thesis
    by (simp add: RangeFilterTreeIndex_public_def Let_def)
next
  case False
  then show ?thesis
    by (simp add: RangeFilterTreeIndex_public_def)
qed













section \<open>Rules for runs\<close>

lemma mbind_mret [simp]: "mbind (mret x) f = f x"
  by (simp add: mbind_def mret_def split: prod.splits)

lemma mbind_mthrow [simp]: "mbind (mthrow err) f = mthrow err"
  by (simp add: mbind_def mthrow_def)

lemma mbind_Inl [simp]: "mbind (Inl err, tr) f = (Inl err, tr)"
  by (simp add: mbind_def)

lemma mbind_Inr: "mbind (Inr x, tr) f = (fst (f x), tr @ snd (f x))"
  by (simp add: mbind_def split: prod.splits)

lemma mbind_Inr_elim:
  assumes "mbind m f = (Inr y, tr)"
  obtains x t1 t2 where "m = (Inr x, t1)" "f x = (Inr y, t2)" "tr = t1 @ t2"
  using assms unfolding mbind_def by (auto split: prod.splits sum.splits)

lemma mret_eq [simp]: "(mret x = (Inr y, tr)) = (x = y \<and> tr = [])"
  by (auto simp: mret_def)

lemma mthrow_neq [simp]: "mthrow err \<noteq> (Inr y, tr)"
  by (simp add: mthrow_def)

lemma memit_eq [simp]: "(memit ev = (Inr u, tr)) = (tr = [ev])"
  by (auto simp: memit_def)

lemma checked_at_eq [simp]: "(checked_at xs i = (Inr y, tr)) = (i < length xs \<and> y = xs ! i \<and> tr = [])"
  by (auto simp: checked_at_def)

lemma unchecked_read_eq [simp]:
  "(unchecked_read xs i = (Inr y, tr)) = (i < length xs \<and> y = xs ! i \<and> tr = [])"
  by (auto simp: unchecked_read_def)

lemma returns_mret: "P x \<Longrightarrow> returns P (mret x)"
  by (simp add: returns_def mret_def)

lemma returns_mthrow: "returns P (mthrow err)"
  by (simp add: returns_def mthrow_def)

lemma returns_mbind:
  assumes "returns R m" and "\<And>x. R x \<Longrightarrow> returns Q (f x)"
  shows "returns Q (mbind m f)"
proof (cases m)
  case (Pair r tr)
  show ?thesis
  proof (cases r)
    case (Inl err)
    then show ?thesis using Pair by (simp add: returns_def)
  next
    case (Inr x)
    then have "R x" using assms(1) Pair by (simp add: returns_def)
    from assms(2)[OF this] show ?thesis using Pair Inr by (simp add: returns_def mbind_Inr)
  qed
qed

lemma returns_True: "returns (\<lambda>x. True) m"
  by (simp add: returns_def split: sum.splits)

lemma returnsD: "returns P m \<Longrightarrow> m = (Inr x, tr) \<Longrightarrow> P x"
  by (simp add: returns_def)

lemma returns_weaken: "returns P m \<Longrightarrow> (\<And>x. P x \<Longrightarrow> Q x) \<Longrightarrow> returns Q m"
  by (simp add: returns_def split: sum.splits)

lemma returns_if: "returns P a \<Longrightarrow> returns P b \<Longrightarrow> returns P (if c then a else b)"
  by simp

lemma emits_mret: "emits P (mret x)"
  by (simp add: emits_def mret_def)

lemma emits_mthrow: "emits P (mthrow err)"
  by (simp add: emits_def mthrow_def)

lemma emits_memit: "P ev \<Longrightarrow> emits P (memit ev)"
  by (simp add: emits_def memit_def)

lemma emits_mbind:
  assumes "emits P m" and "\<And>x. emits P (f x)"
  shows "emits P (mbind m f)"
proof (cases m)
  case (Pair r tr)
  show ?thesis
  proof (cases r)
    case (Inl err)
    then show ?thesis using Pair assms(1) by (simp add: emits_def)
  next
    case (Inr x)
    then show ?thesis using Pair assms(1) assms(2)[of x] by (simp add: emits_def mbind_Inr)
  qed
qed

lemma emits_if: "emits P a \<Longrightarrow> emits P b \<Longrightarrow> emits P (if c then a else b)"
  by simp

lemma emits_checked_at: "emits P (checked_at xs i)"
  by (simp add: checked_at_def emits_mret emits_mthrow)

lemma emits_unchecked_read: "emits P (unchecked_read xs i)"
  by (simp add: unchecked_read_def emits_mret emits_mthrow)

section \<open>Bounds of the boundary searches\<close>

lemma first_greater_than_loop_bounds:
  "start < en \<Longrightarrow> start < first_greater_than_loop fv x start en \<and>
     first_greater_than_loop fv x start en \<le> en"
proof (induction fv x start en rule: first_greater_than_loop.induct)
  case (1 fv x start en)
  show ?case
  proof (cases "start + 1 < en")
    case True
    let ?mid = "(start + en) div 2"
    have m: "start < ?mid" "?mid < en" using True by auto
    show ?thesis
    proof (cases "fv ! ?mid > x")
      case gt: True
      from "1.IH"(1)[OF True refl gt m(1)] m True gt show ?thesis
        by (simp add: first_greater_than_loop.simps[of fv x start en] Let_def)
    next
      case ngt: False
      from "1.IH"(2)[OF True refl ngt m(2)] m True ngt show ?thesis
        by (simp add: first_greater_than_loop.simps[of fv x start en] Let_def)
    qed
  next
    case False
    then show ?thesis using "1.prems"
      by (simp add: first_greater_than_loop.simps[of fv x start en])
  qed
qed

lemma first_greater_than_loop_none:
  "\<forall>i. start < i \<and> i < en \<longrightarrow> \<not> fv ! i > x \<Longrightarrow> first_greater_than_loop fv x start en = en"
proof (induction fv x start en rule: first_greater_than_loop.induct)
  case (1 fv x start en)
  show ?case
  proof (cases "start + 1 < en")
    case True
    let ?mid = "(start + en) div 2"
    have m: "start < ?mid" "?mid < en" using True by auto
    then have ngt: "\<not> fv ! ?mid > x" using "1.prems" by blast
    have "\<forall>i. ?mid < i \<and> i < en \<longrightarrow> \<not> fv ! i > x" using "1.prems" m by auto
    from "1.IH"(2)[OF True refl ngt this] True ngt show ?thesis
      by (simp add: first_greater_than_loop.simps[of fv x start en] Let_def)
  next
    case False
    then show ?thesis by (simp add: first_greater_than_loop.simps[of fv x start en])
  qed
qed

lemma first_greater_than_or_equal_to_loop_bounds:
  "start < en \<Longrightarrow> start < first_greater_than_or_equal_to_loop fv x start en \<and>
     first_greater_than_or_equal_to_loop fv x start en \<le> en"
proof (induction fv x start en rule: first_greater_than_or_equal_to_loop.induct)
  case (1 fv x start en)
  show ?case
  proof (cases "start + 1 < en")
    case True
    let ?mid = "(start + en) div 2"
    have m: "start < ?mid" "?mid < en" using True by auto
    show ?thesis
    proof (cases "fv ! ?mid \<ge> x")
      case ge: True
      from "1.IH"(1)[OF True refl ge m(1)] m True ge show ?thesis
        by (simp add: first_greater_than_or_equal_to_loop.simps[of fv x start en] Let_def)
    next
      case nge: False
      from "1.IH"(2)[OF True refl nge m(2)] m True nge show ?thesis
        by (simp add: first_greater_than_or_equal_to_loop.simps[of fv x start en] Let_def)
    qed
  next
    case False
    then show ?thesis using "1.prems"
      by (simp add: first_greater_than_or_equal_to_loop.simps[of fv x start en])
  qed
qed

lemma first_greater_than_or_equal_to_loop_all:
  "start < en \<Longrightarrow> \<forall>i. start < i \<and> i < en \<longrightarrow> fv ! i \<ge> x \<Longrightarrow>
     first_greater_than_or_equal_to_loop fv x start en = start + 1"
proof (induction fv x start en rule: first_greater_than_or_equal_to_loop.induct)
  case (1 fv x start en)
  show ?case
  proof (cases "start + 1 < en")
    case True
    let ?mid = "(start + en) div 2"
    have m: "start < ?mid" "?mid < en" using True by auto
    then have ge: "fv ! ?mid \<ge> x" using "1.prems"(2) by blast
    have "\<forall>i. start < i \<and> i < ?mid \<longrightarrow> fv ! i \<ge> x" using "1.prems"(2) m by auto
    from "1.IH"(1)[OF True refl ge m(1) this] True ge show ?thesis
      by (simp add: first_greater_than_or_equal_to_loop.simps[of fv x start en] Let_def)
  next
    case False
    then show ?thesis using "1.prems"(1)
      by (simp add: first_greater_than_or_equal_to_loop.simps[of fv x start en])
  qed
qed

lemma first_greater_than_loop_result:
  "start < en \<Longrightarrow>
     start < first_greater_than_loop fv x start en \<and>
     first_greater_than_loop fv x start en \<le> en \<and>
     (first_greater_than_loop fv x start en = start + 1 \<or>
        \<not> fv ! (first_greater_than_loop fv x start en - 1) > x) \<and>
     (first_greater_than_loop fv x start en = en \<or>
        fv ! (first_greater_than_loop fv x start en) > x)"
proof (induction fv x start en rule: first_greater_than_loop.induct)
  case (1 fv x start en)
  show ?case
  proof (cases "start + 1 < en")
    case True
    let ?mid = "(start + en) div 2"
    have m: "start < ?mid" "?mid < en" using True by auto
    show ?thesis
    proof (cases "fv ! ?mid > x")
      case gt: True
      have e: "first_greater_than_loop fv x start en = first_greater_than_loop fv x start ?mid"
        using True gt by (simp add: first_greater_than_loop.simps[of fv x start en] Let_def)
      from "1.IH"(1)[OF True refl gt m(1)] m gt show ?thesis
        unfolding e by auto
    next
      case ngt: False
      have e: "first_greater_than_loop fv x start en = first_greater_than_loop fv x ?mid en"
        using True ngt by (simp add: first_greater_than_loop.simps[of fv x start en] Let_def)
      from "1.IH"(2)[OF True refl ngt m(2)] m ngt show ?thesis
        unfolding e by auto
    qed
  next
    case False
    then show ?thesis using "1.prems"
      by (simp add: first_greater_than_loop.simps[of fv x start en])
  qed
qed

text \<open>
  What \<open>first_greater_than\<close> returns on sorted filter values: the smallest index from
  1 on whose value exceeds \<open>x\<close>, and \<open>n\<close> if there is none.
\<close>

lemma first_greater_than_from_one:
  fixes fv :: "'f::linorder list"
  assumes "sorted fv" "fv \<noteq> []"
  shows "1 \<le> first_greater_than fv x \<and> first_greater_than fv x \<le> length fv \<and>
     (\<forall>i. 1 \<le> i \<and> i < first_greater_than fv x \<longrightarrow> fv ! i \<le> x) \<and>
     (first_greater_than fv x < length fv \<longrightarrow> x < fv ! first_greater_than fv x)"
proof -
  let ?r = "first_greater_than fv x"
  have r: "0 < ?r" "?r \<le> length fv" "?r = 1 \<or> \<not> fv ! (?r - 1) > x" "?r = length fv \<or> fv ! ?r > x"
    using first_greater_than_loop_result[where start = 0 and en = "length fv" and fv = fv and x = x]
      assms(2)
    by (simp_all add: first_greater_than_def)
  have "fv ! i \<le> x" if "1 \<le> i" "i < ?r" for i
  proof -
    from that have "?r \<noteq> 1" by simp
    with r(3) have le: "fv ! (?r - 1) \<le> x" by simp
    have "fv ! i \<le> fv ! (?r - 1)"
      using assms(1) that r(2) by (intro sorted_nth_mono) auto
    then show ?thesis using le by simp
  qed
  then show ?thesis using r by auto
qed

lemma first_greater_than_positive: "fv \<noteq> [] \<Longrightarrow> 0 < first_greater_than fv x"
  using first_greater_than_loop_bounds[where start = 0 and en = "length fv" and fv = fv and x = x] by (simp add: first_greater_than_def)

lemma first_greater_than_or_equal_to_le: "first_greater_than_or_equal_to fv x \<le> length fv"
proof (cases "fv = []")
  case True
  then show ?thesis
    by (simp add: first_greater_than_or_equal_to_def first_greater_than_or_equal_to_loop.simps[of "[]" x 0 0])
next
  case False
  then show ?thesis
    using first_greater_than_or_equal_to_loop_bounds[where start = 0 and en = "length fv" and fv = fv and x = x]
    by (simp add: first_greater_than_or_equal_to_def)
qed

lemma three_split_scan_None:
  "exclusive_end \<le> inclusive_start \<Longrightarrow>
     three_split_scan bss n inclusive_start exclusive_end js = None"
proof (induction js)
  case Nil
  then show ?case by simp
next
  case (Cons j js)
  let ?w = "bss ! j"
  have "\<not> (b * ?w \<ge> inclusive_start \<and> min (b * ?w + ?w) n \<le> exclusive_end)"
    if "b \<in> set [inclusive_start div ?w ..< exclusive_end div ?w]" for b
  proof -
    from that have lt: "b < exclusive_end div ?w" by simp
    then have w: "0 < ?w" by (cases "?w = 0") auto
    from lt have "Suc b \<le> exclusive_end div ?w" by simp
    then have "Suc b * ?w \<le> exclusive_end div ?w * ?w" by (rule mult_le_mono1)
    also have "\<dots> \<le> exclusive_end" by simp
    finally have "b * ?w + ?w \<le> exclusive_end" by (simp add: add.commute)
    then have "b * ?w < inclusive_start" using w Cons.prems by linarith
    then show ?thesis by simp
  qed
  then have "List.find (\<lambda>b. b * ?w \<ge> inclusive_start \<and> min (b * ?w + ?w) n \<le> exclusive_end)
      [inclusive_start div ?w ..< exclusive_end div ?w] = None"
    by (simp add: find_None_iff del: set_upt)
  then show ?case using Cons by (simp add: Let_def)
qed

section \<open>Queries outside the stored range\<close>

lemma check_empty_outside:
  assumes "filter_values idx \<noteq> []"
    and "hi < filter_values idx ! 0 \<or> filter_values idx ! (length (filter_values idx) - 1) < lo"
  shows "check_empty idx (lo, hi) =
     (Inr True, [OutOfRangeDiagnostic (filter_values idx ! 0)
        (filter_values idx ! (length (filter_values idx) - 1)) lo hi])"
proof -
  from assms(1) obtain x xs where fv: "filter_values idx = x # xs" by (cases "filter_values idx") auto
  have l: "last (x # xs) = (x # xs) ! length xs" by (simp add: last_conv_nth)
  show ?thesis
    using assms(2)
    by (simp add: check_empty_def fv l Let_def memit_def mbind_def mret_def del: last.simps)
qed

lemma fenwick_outside:
  assumes "filter_values idx \<noteq> []"
    and "hi < filter_values idx ! 0 \<or> filter_values idx ! (length (filter_values idx) - 1) < lo"
  shows "fenwick_tree_search srt sq distance idx query (lo, hi) qp =
     (Inr [], [OutOfRangeDiagnostic (filter_values idx ! 0)
        (filter_values idx ! (length (filter_values idx) - 1)) lo hi])"
  unfolding fenwick_tree_search_def check_empty_outside[OF assms]
  by (simp add: mbind_Inr mret_def)

lemma optimized_outside:
  assumes "filter_values idx \<noteq> []"
    and "hi < filter_values idx ! 0 \<or> filter_values idx ! (length (filter_values idx) - 1) < lo"
  shows "optimized_postfiltering_search srt sq distance idx query (lo, hi) qp =
     (Inr [], [OutOfRangeDiagnostic (filter_values idx ! 0)
        (filter_values idx ! (length (filter_values idx) - 1)) lo hi])"
  unfolding optimized_postfiltering_search_def check_empty_outside[OF assms]
  by (simp add: mbind_Inr mret_def)

lemma window_empty_outside:
  fixes fv :: "'f::linorder list"
  assumes "sorted fv" "fv \<noteq> []"
    and "hi < fv ! 0 \<or> fv ! (length fv - 1) < lo"
  shows "first_greater_than_or_equal_to fv hi \<le> first_greater_than fv lo"
  using assms(3)
proof
  assume h: "hi < fv ! 0"
  have "fv ! i \<ge> hi" if "i < length fv" for i
  proof -
    have "fv ! 0 \<le> fv ! i" using assms(1) that by (simp add: sorted_iff_nth_mono)
    then show ?thesis using h by simp
  qed
  then have "first_greater_than_or_equal_to fv hi = 1"
    using first_greater_than_or_equal_to_loop_all[where start = 0 and en = "length fv" and fv = fv and x = hi] assms(2)
    by (simp add: first_greater_than_or_equal_to_def)
  then show ?thesis using first_greater_than_positive[OF assms(2), of lo] by simp
next
  assume h: "fv ! (length fv - 1) < lo"
  have "\<not> fv ! i > lo" if "i < length fv" for i
  proof -
    have "fv ! i \<le> fv ! (length fv - 1)" using assms(1) that by (simp add: sorted_iff_nth_mono)
    then show ?thesis using h by simp
  qed
  then have "first_greater_than fv lo = length fv"
    using first_greater_than_loop_none[where start = 0 and en = "length fv" and fv = fv and x = lo]
    by (simp add: first_greater_than_def)
  then show ?thesis using first_greater_than_or_equal_to_le[of fv hi] by simp
qed

lemma three_split_outside:
  assumes "sorted (filter_values idx)" "filter_values idx \<noteq> []"
    and "hi < filter_values idx ! 0 \<or> filter_values idx ! (length (filter_values idx) - 1) < lo"
  shows "three_split_search srt sq distance idx query (lo, hi) qp =
     (Inr [], [OutOfRangeDiagnostic (filter_values idx ! 0)
        (filter_values idx ! (length (filter_values idx) - 1)) lo hi])"
  unfolding three_split_search_def
  using three_split_scan_None[OF window_empty_outside[OF assms]] fenwick_outside[OF assms(2,3)]
  by (simp add: Let_def)

lemma search_by_method_outside:
  assumes "sorted (filter_values idx)" "filter_values idx \<noteq> []"
    and "hi < filter_values idx ! 0 \<or> filter_values idx ! (length (filter_values idx) - 1) < lo"
  shows "search_by_method srt sq distance idx query_method query (lo, hi) qp =
     (Inr [], [OutOfRangeDiagnostic (filter_values idx ! 0)
        (filter_values idx ! (length (filter_values idx) - 1)) lo hi])"
  unfolding search_by_method_def
  using three_split_outside[OF assms] fenwick_outside[OF assms(2,3)] optimized_outside[OF assms(2,3)]
  by simp

lemma run_all_padding:
  "run_all (output_slot idx []) js = mret (map (\<lambda>j. (0, float_max)) js)"
  by (induction js) (simp_all add: output_slot_def)

lemma closed_intervals_disjoint:
  fixes lo :: "'f::linorder"
  assumes "lo \<le> hi" "a \<le> b" "{lo..hi} \<inter> {a..b} = {}"
  shows "hi < a \<or> b < lo"
proof (rule ccontr)
  assume "\<not> (hi < a \<or> b < lo)"
  then have "a \<le> hi" "lo \<le> b" by auto
  then have "max lo a \<in> {lo..hi} \<inter> {a..b}" using assms(1,2) by auto
  then show False using assms(3) by blast
qed

lemma three_point_nonempty: "0 < length (points three_point_index)"
  by (simp add: fixture_defs)

lemma three_point_disjoint:
  "{10..20} \<inter> {filter_values three_point_index ! 0 ..
       filter_values three_point_index ! (length (filter_values three_point_index) - 1)} = {}"
  by (simp add: fixture_defs)

lemma three_point_state_index: "the_index three_point_state = three_point_index"
  by (simp add: three_point_state_def)

text \<open>
  C9, as the claim states it: the padding distance is \<open>+infinity\<close>. For the three points
  with filter values \<open>[1, 2, 3]\<close>, the range \<open>[10, 20]\<close> and \<open>k = 2\<close>, both output slots
  hold id 0 and the distance \<open>float_max\<close>, the largest finite float, which is not
  \<open>+infinity\<close>.
\<close>

theorem padding_distance_is_infinite_counterexample:
  "RangeFilterTreeIndex_public stable_insertion_sort (Array2 [[0], [1], [2]]) (Array1 [1, 2, 3]) 1000
     = Inr three_point_index \<and>
   fst (batch_search stable_insertion_sort (bucket_query_of three_point_index) squared_l2
          [[0]] [(10, 20)] 1 ''fenwick_tree'' example_qp three_point_state)
     = Inr ([[0, 0]], [[float_max, float_max]]) \<and>
   float_max \<noteq> PosInf"
  by (simp add: build_defs search_defs run_defs size_t_defs fixture_defs upt_rec float_max_def)

text \<open>
  C9, amended. For an index built (with a library sort that meets its contract) over at
  least one point, and a range \<open>[lo, hi]\<close> with \<open>lo \<le> hi\<close> that does not meet
  \<open>[FilterValues[0], FilterValues[n-1]]\<close>, a batch of that one query under any strategy
  ends without an error, writes exactly the one diagnostic of \<open>check_empty\<close>, leaves the
  index as it was, and returns one row of \<open>k\<close> slots with id 0 and distance \<open>float_max\<close>.
\<close>

theorem out_of_range_query_returns_padding:
  assumes "sort_contract srt0"
    and "RangeFilterTreeIndex_public srt0 points_arr filter_arr c = Inr idx"
    and "0 < length (points idx)"
    and "lo \<le> hi"
    and "{lo..hi} \<inter> {filter_values idx ! 0 .. filter_values idx ! (length (filter_values idx) - 1)} = {}"
    and "the_index st = idx"
  shows "batch_search srt sq distance [q] [(lo, hi)] 1 query_method qp st =
     (Inr ([replicate (k qp) 0], [replicate (k qp) float_max]),
      st\<lparr>standard_output := standard_output st @
         [OutOfRangeDiagnostic (filter_values idx ! 0)
            (filter_values idx ! (length (filter_values idx) - 1)) lo hi]\<rparr>)"
proof -
  have so: "sorted (filter_values idx)" and len: "length (filter_values idx) = length (points idx)"
    using build_filter_values_sorted[OF assms(1,2)] by simp_all
  have ne: "filter_values idx \<noteq> []" using len assms(3) by auto
  have "filter_values idx ! 0 \<le> filter_values idx ! (length (filter_values idx) - 1)"
    using so ne by (simp add: sorted_iff_nth_mono)
  from closed_intervals_disjoint[OF assms(4) this assms(5)]
  have out: "hi < filter_values idx ! 0 \<or> filter_values idx ! (length (filter_values idx) - 1) < lo" .
  have rows: "batch_rows srt sq distance idx [q] [(lo, hi)] 1 query_method qp =
     (Inr [map (\<lambda>j. (0, float_max)) [0..<k qp]],
      [OutOfRangeDiagnostic (filter_values idx ! 0)
            (filter_values idx ! (length (filter_values idx) - 1)) lo hi])"
    unfolding batch_rows_def
    by (simp add: search_by_method_outside[OF so ne out] run_all_padding unchecked_read_def
        mbind_Inr mret_def Let_def)
  show ?thesis
    unfolding batch_search_def assms(6) rows
    by (simp add: map_replicate_const comp_def)
qed

text \<open>The theorem at the three points with filter values \<open>[1, 2, 3]\<close> and the range \<open>[10, 20]\<close>.\<close>

theorem out_of_range_query_returns_padding_witness:
  "sort_contract (stable_insertion_sort :: nat sorter) \<and>
   RangeFilterTreeIndex_public stable_insertion_sort (Array2 [[0], [1], [2]]) (Array1 [1, 2, 3]) 1000
     = Inr three_point_index \<and>
   0 < length (points three_point_index) \<and>
   (10 :: nat) \<le> 20 \<and>
   {10..20} \<inter> {filter_values three_point_index ! 0 ..
       filter_values three_point_index ! (length (filter_values three_point_index) - 1)} = {} \<and>
   the_index three_point_state = three_point_index \<and>
   batch_search stable_insertion_sort (bucket_query_of three_point_index) squared_l2
       [[0]] [(10, 20)] 1 ''three_split'' example_qp three_point_state =
     (Inr ([replicate (k example_qp) 0], [replicate (k example_qp) float_max]),
      three_point_state\<lparr>standard_output := standard_output three_point_state @
         [OutOfRangeDiagnostic (filter_values three_point_index ! 0)
            (filter_values three_point_index ! (length (filter_values three_point_index) - 1))
            10 20]\<rparr>)"
proof -
  have le: "(10 :: nat) \<le> 20" by simp
  show ?thesis
    using sort_contract_stable_insertion_sort three_point_build three_point_nonempty le
      three_point_disjoint three_point_state_index
      out_of_range_query_returns_padding[OF sort_contract_stable_insertion_sort
        three_point_build three_point_nonempty le three_point_disjoint three_point_state_index,
        of stable_insertion_sort "bucket_query_of three_point_index" squared_l2 "[0]"
           "''three_split''" example_qp]
    by (intro conjI)
qed

section \<open>The order of the results\<close>

lemma flt_less_asym: "flt_less a b \<Longrightarrow> \<not> flt_less b a"
  by (cases a; cases b) auto

lemma flt_less_negtrans:
  "a \<noteq> NaN \<Longrightarrow> b \<noteq> NaN \<Longrightarrow> c \<noteq> NaN \<Longrightarrow> \<not> flt_less a b \<Longrightarrow> \<not> flt_less b c \<Longrightarrow> \<not> flt_less a c"
  by (cases a; cases b; cases c) auto

lemma strict_weak_on_distance:
  "nan_free xs \<Longrightarrow> strict_weak_on (set xs) (\<lambda>a b. flt_less (snd a) (snd b))"
  unfolding strict_weak_on_def nan_free_def list_all_iff
  using flt_less_asym flt_less_negtrans by blast

lemma nan_free_append [simp]: "nan_free (xs @ ys) = (nan_free xs \<and> nan_free ys)"
  by (simp add: nan_free_def)

lemma nan_free_Nil [simp]: "nan_free []"
  by (simp add: nan_free_def)

lemma ascending_Nil [simp]: "ascending_by_distance []"
  by (simp add: ascending_by_distance_def)

lemma sort_and_cut_ascending:
  assumes "sort_contract srt" "nan_free xs"
  shows "ascending_by_distance (sort_and_cut srt knn xs) \<and> nan_free (sort_and_cut srt knn xs)"
proof -
  let ?s = "srt (\<lambda>a b. flt_less (snd a) (snd b)) xs"
  note c = sort_contractD[OF assms(1) strict_weak_on_distance[OF assms(2)]]
  have a: "ascending_by_distance ?s" using c(2) by (simp add: ascending_by_distance_def)
  have "set ?s = set xs" using mset_eq_setD[OF c(1)] .
  then have n: "nan_free ?s" using assms(2) by (simp add: nan_free_def list_all_iff)
  have "ascending_by_distance (take knn ?s)"
    using a unfolding ascending_by_distance_def by (rule sorted_wrt_take)
  moreover have "nan_free (take knn ?s)"
    using n unfolding nan_free_def list_all_iff by (meson in_set_takeD)
  ultimately show ?thesis using a n by (simp add: sort_and_cut_def Let_def)
qed

lemma returns_query_buckets:
  assumes "\<And>si q r p. nan_free (sq si q r p)"
  shows "returns nan_free (query_buckets sq idx query rng qp plan)"
proof (induction plan)
  case Nil
  then show ?case by (simp add: returns_mret)
next
  case (Cons index_pair plan)
  show ?case
    unfolding query_buckets.simps
    apply (rule returns_mbind[OF returns_True])
    apply (rule returns_mbind[OF returns_True])
    apply (rule returns_mbind[OF returns_True])
    apply (rule returns_mbind[OF Cons.IH])
    apply (rule returns_mret)
    by (simp add: assms)
qed

lemma returns_brute_force:
  assumes "\<And>p q. distance p q \<noteq> NaN"
  shows "returns nan_free (brute_force distance idx query a b)"
  using assms
  by (simp add: brute_force_def returns_mthrow returns_mret nan_free_def list_all_iff)

lemma returns_residue:
  assumes "\<And>p q. distance p q \<noteq> NaN"
  shows "returns nan_free (residue distance idx query s e lr)"
  unfolding residue_def
  apply (rule returns_if)
   apply (rule returns_brute_force[OF assms])
  apply (rule returns_mbind[OF returns_brute_force[OF assms]])
  apply (rule returns_mbind[OF returns_brute_force[OF assms]])
  apply (rule returns_mret)
  by simp

lemma returns_fenwick:
  assumes "sort_contract srt" "\<And>p q. distance p q \<noteq> NaN" "\<And>si q r p. nan_free (sq si q r p)"
  shows "returns (\<lambda>res. ascending_by_distance res \<and> nan_free res)
           (fenwick_tree_search srt sq distance idx query rng qp)"
  unfolding fenwick_tree_search_def Let_def
  apply (rule returns_mbind[OF returns_True])
  apply (rule returns_if)
   apply (rule returns_mret, simp)
  apply (rule returns_mbind[OF returns_query_buckets[OF assms(3)]])
  apply (rule returns_mbind[OF returns_residue[OF assms(2)]])
  apply (rule returns_mret)
  apply (rule sort_and_cut_ascending[OF assms(1)])
  by simp

lemma returns_optimized:
  assumes "sort_contract srt" "\<And>p q. distance p q \<noteq> NaN"
    and "\<And>si q r p. ascending_by_distance (sq si q r p) \<and> nan_free (sq si q r p)"
  shows "returns (\<lambda>res. ascending_by_distance res \<and> nan_free res)
           (optimized_postfiltering_search srt sq distance idx query rng qp)"
proof -
  have n: "nan_free (sq si q r p)" for si q r p using assms(3) by simp
  note f = returns_fenwick[OF assms(1,2) n]
  show ?thesis
    unfolding optimized_postfiltering_search_def Let_def
    apply (rule returns_mbind[OF returns_True])
    apply (rule returns_if)
     apply (rule returns_mret, simp)
    apply (rule returns_if)
     apply (rule f)
    apply (rule returns_mbind[OF returns_True])
    apply (rule returns_mbind[OF returns_True])
    apply (rule returns_if)
     apply (rule f)
    apply (rule returns_mbind[OF returns_True])
    apply (rule returns_mbind[OF returns_True])
    apply (rule returns_mbind[OF returns_True])
    apply (rule returns_mret)
    by (rule assms(3))
qed

lemma returns_three_split:
  assumes "sort_contract srt" "\<And>p q. distance p q \<noteq> NaN"
    and "\<And>si q r p. ascending_by_distance (sq si q r p) \<and> nan_free (sq si q r p)"
  shows "returns (\<lambda>res. ascending_by_distance res \<and> nan_free res)
           (three_split_search srt sq distance idx query rng qp)"
proof -
  have n: "nan_free (sq si q r p)" for si q r p using assms(3) by simp
  note f = returns_fenwick[OF assms(1,2) n]
  note opt = returns_optimized[OF assms]
  have side: "returns nan_free
      (if c then mbind (unchecked_read (filter_values idx) i)
                  (\<lambda>v. optimized_postfiltering_search srt sq distance idx query (g v) qp)
       else mret [])" for c i g
    apply (rule returns_if)
     apply (rule returns_mbind[OF returns_True])
     apply (rule returns_weaken[OF opt], simp)
    apply (rule returns_mret, simp)
    done
  show ?thesis
    unfolding three_split_search_def Let_def
    apply (cases "three_split_scan (bucket_sizes idx) (length (points idx))
                (first_greater_than (filter_values idx) (fst rng))
                (first_greater_than_or_equal_to (filter_values idx) (snd rng))
                (rev [0..<length (bucket_sizes idx)])")
     apply (simp add: f)
    apply simp
    apply (rule returns_mbind[OF returns_True])
    apply (rule returns_mbind[OF returns_True])
    apply (rule returns_mbind[OF returns_True])
    apply (rule returns_mbind[OF returns_True])
    apply (rule returns_mbind[where R = nan_free])
     apply (rule side)
    apply (rule returns_mbind[where R = nan_free])
     apply (rule side)
    apply (rule returns_mret)
    apply (rule sort_and_cut_ascending[OF assms(1)])
    by (simp add: n)
qed

lemma sort_and_cut_take:
  "sort_and_cut srt knn xs = take knn (srt (\<lambda>a b. flt_less (snd a) (snd b)) xs)"
  by (simp add: sort_and_cut_def Let_def)

lemma exact_bucket_query_ascending:
  assumes "sort_contract srt" "\<And>p q. distance p q \<noteq> NaN"
  shows "ascending_by_distance (exact_bucket_query srt distance pts si query rng qp) \<and>
         nan_free (exact_bucket_query srt distance pts si query rng qp)"
proof -
  let ?xs = "map (\<lambda>p. (fst p, distance (pts ! fst p) query))
          (filter (\<lambda>p. fst rng \<le> snd p \<and> snd p \<le> snd rng)
             (zip (subset_of_indices si) (subset_of_filter_values si)))"
  have "nan_free ?xs" using assms(2) by (simp add: nan_free_def list_all_iff)
  from sort_and_cut_ascending[OF assms(1) this, of "k qp"] show ?thesis
    by (simp add: sort_and_cut_take exact_bucket_query_def)
qed

lemma squared_l2_not_NaN: "squared_l2 p q \<noteq> NaN"
  by (simp add: squared_l2_def)

lemma bucket_query_of_ascending:
  "ascending_by_distance (bucket_query_of idx si q r p) \<and> nan_free (bucket_query_of idx si q r p)"
  unfolding bucket_query_of_def
  by (rule exact_bucket_query_ascending[OF sort_contract_stable_insertion_sort squared_l2_not_NaN])

lemma eight_point_scan:
  "three_split_scan (bucket_sizes eight_point_index) (length (points eight_point_index))
     (first_greater_than (filter_values eight_point_index) (fst (1 :: nat, 6 :: nat)))
     (first_greater_than_or_equal_to (filter_values eight_point_index) (snd (1 :: nat, 6 :: nat)))
     (rev [0..<length (bucket_sizes eight_point_index)]) = Some (0, 1)"
  by (simp add: search_defs eight_point_index_def upt_rec)

lemma eight_point_three_split:
  "three_split_search stable_insertion_sort (bucket_query_of eight_point_index)
     squared_l2 eight_point_index [0] (1, 6) example_qp
   = (Inr [(2, Finite 4), (3, Finite 9)],
      [SubIndexQuery 0 1 (1, 6) (example_qp\<lparr>final_beam_multiply := 1\<rparr>),
       SubIndexQuery 0 2 (4, 6) example_qp])"
  by (simp add: search_defs run_defs size_t_defs fixture_defs stable_insertion_sort_def upt_rec)

lemma eight_point_by_method:
  "search_by_method stable_insertion_sort (bucket_query_of eight_point_index)
     squared_l2 eight_point_index ''three_split'' [0] (1, 6) example_qp
   = (Inr [(2, Finite 4), (3, Finite 9)],
      [SubIndexQuery 0 1 (1, 6) (example_qp\<lparr>final_beam_multiply := 1\<rparr>),
       SubIndexQuery 0 2 (4, 6) example_qp])"
  using eight_point_three_split by (simp add: search_by_method_def)

lemma mset_pair_cases:
  assumes "mset xs = mset [a, b]"
  shows "xs = [a, b] \<or> xs = [b, a]"
proof -
  have "length xs = 2" using mset_eq_length[OF assms] by simp
  then obtain x y where xs: "xs = [x, y]"
    by (metis (no_types) One_nat_def Suc_1 length_0_conv length_Suc_conv)
  have "{#x, y#} = {#a, b#}" using assms xs by simp
  then show ?thesis using xs by (auto simp: add_eq_conv_ex)
qed

text \<open>
  Whatever a library sort that meets the contract does with the two results at distance
  1, one of two builds returns the original ids \<open>[2, 1]\<close>: the one with the filter
  values \<open>[0, 2, 1]\<close> if the sort keeps them by sorted position, the one with
  \<open>[0, 1, 2]\<close> if it swaps them.
\<close>

lemma tie_order_follows_the_sort:
  assumes "sort_contract (srt :: pid sorter)"
  shows "fst (batch_search srt sq squared_l2 [[0]] [(0, 3)] 1 ''fenwick_tree'' example_qp
            \<lparr>the_index = tied_index, standard_output = []\<rparr>)
           = Inr ([[2, 1]], [[Finite 1, Finite 1]]) \<or>
         fst (batch_search srt sq squared_l2 [[0]] [(0, 3)] 1 ''fenwick_tree'' example_qp
            \<lparr>the_index = untied_index, standard_output = []\<rparr>)
           = Inr ([[2, 1]], [[Finite 1, Finite 1]])"
proof -
  let ?F = "[(Suc 0, Finite 1), (Suc (Suc 0), Finite 1)] :: pid list"
  have "nan_free ?F" by (simp add: nan_free_def)
  from sort_contractD(1)[OF assms strict_weak_on_distance[OF this]]
  have "srt (\<lambda>a b. flt_less (snd a) (snd b)) ?F = ?F \<or>
        srt (\<lambda>a b. flt_less (snd a) (snd b)) ?F = [(Suc (Suc 0), Finite 1), (Suc 0, Finite 1)]"
    by (rule mset_pair_cases)
  then show ?thesis
  proof
    assume "srt (\<lambda>a b. flt_less (snd a) (snd b)) ?F = ?F"
    then have "fst (batch_search srt sq squared_l2 [[0]] [(0, 3)] 1 ''fenwick_tree'' example_qp
            \<lparr>the_index = tied_index, standard_output = []\<rparr>)
           = Inr ([[2, 1]], [[Finite 1, Finite 1]])"
      by (simp add: search_defs run_defs size_t_defs fixture_defs upt_rec)
    then show ?thesis ..
  next
    assume "srt (\<lambda>a b. flt_less (snd a) (snd b)) ?F = [(Suc (Suc 0), Finite 1), (Suc 0, Finite 1)]"
    then have "fst (batch_search srt sq squared_l2 [[0]] [(0, 3)] 1 ''fenwick_tree'' example_qp
            \<lparr>the_index = untied_index, standard_output = []\<rparr>)
           = Inr ([[2, 1]], [[Finite 1, Finite 1]])"
      by (simp add: search_defs run_defs size_t_defs fixture_defs upt_rec)
    then show ?thesis ..
  qed
qed

text \<open>
  C6, as the claim states it: results with equal distance come in ascending order of
  original id. The points \<open>[0], [1], [1]\<close> with filter values \<open>[0, 2, 1]\<close> are stored in
  the order \<open>[0, 2, 1]\<close> of original ids. For the query \<open>[0]\<close>, the range \<open>[0, 3]\<close> and
  \<open>k = 2\<close>, the sorted positions 1 and 2 are both at distance 1; the final sort compares
  distances only, and even the stable sort returns them by sorted position: the
  original ids come out as \<open>[2, 1]\<close>.
\<close>

theorem equal_distances_by_original_id_counterexample:
  "RangeFilterTreeIndex_public stable_insertion_sort (Array2 [[0], [1], [1]]) (Array1 [0, 2, 1]) 1000
     = Inr tied_index \<and>
   fst (batch_search stable_insertion_sort (bucket_query_of tied_index) squared_l2
          [[0]] [(0, 3)] 1 ''fenwick_tree'' example_qp
          \<lparr>the_index = tied_index, standard_output = []\<rparr>)
     = Inr ([[2, 1]], [[Finite 1, Finite 1]])"
  by (simp add: build_defs search_defs run_defs size_t_defs fixture_defs upt_rec)

text \<open>
  C6, amended. With a library sort that meets its contract, a distance kernel that
  never yields NaN, and bucket indexes that return their results NaN-free and in
  ascending order of distance, the result sequence of every strategy is in ascending
  order of distance. (Nothing is promised about results with equal distance.)
\<close>

theorem results_ascending_by_distance:
  assumes "sort_contract srt" "\<forall>p q. distance p q \<noteq> NaN"
    and "\<forall>si q r p. ascending_by_distance (sq si q r p) \<and> nan_free (sq si q r p)"
    and "search_by_method srt sq distance idx query_method query rng qp = (Inr results, tr)"
  shows "ascending_by_distance results"
proof -
  have d: "distance p q \<noteq> NaN" for p q using assms(2) by blast
  have a: "ascending_by_distance (sq si q r p) \<and> nan_free (sq si q r p)" for si q r p
    using assms(3) by blast
  have n: "nan_free (sq si q r p)" for si q r p using a by simp
  have "returns (\<lambda>res. ascending_by_distance res \<and> nan_free res)
          (search_by_method srt sq distance idx query_method query rng qp)"
    unfolding search_by_method_def
    by (intro returns_if returns_optimized[OF assms(1) d a] returns_three_split[OF assms(1) d a]
        returns_fenwick[OF assms(1) d n])
  from returnsD[OF this assms(4)] show ?thesis by simp
qed

text \<open>
  The theorem at the index of eight points, the range \<open>[1, 6]\<close> and the \<open>three_split\<close>
  strategy, with the exact bucket index and the squared Euclidean distance.
\<close>

theorem results_ascending_by_distance_witness:
  "sort_contract (stable_insertion_sort :: pid sorter) \<and>
   (\<forall>p q. squared_l2 p q \<noteq> NaN) \<and>
   (\<forall>si q r p.
      ascending_by_distance (bucket_query_of eight_point_index si q r p) \<and>
      nan_free (bucket_query_of eight_point_index si q r p)) \<and>
   search_by_method stable_insertion_sort (bucket_query_of eight_point_index)
     squared_l2 eight_point_index ''three_split'' [0] (1, 6) example_qp
   = (Inr [(2, Finite 4), (3, Finite 9)],
      [SubIndexQuery 0 1 (1, 6) (example_qp\<lparr>final_beam_multiply := 1\<rparr>),
       SubIndexQuery 0 2 (4, 6) example_qp]) \<and>
   ascending_by_distance [(2, Finite 4), (3, Finite 9)]"
proof -
  have h1: "sort_contract (stable_insertion_sort :: pid sorter)"
    by (rule sort_contract_stable_insertion_sort)
  have h2: "\<forall>p q. squared_l2 p q \<noteq> NaN" by (simp add: squared_l2_not_NaN)
  have h3: "\<forall>si q r p.
      ascending_by_distance (bucket_query_of eight_point_index si q r p) \<and>
      nan_free (bucket_query_of eight_point_index si q r p)"
    by (intro allI bucket_query_of_ascending)
  show ?thesis
    using h1 h2 h3 eight_point_by_method
      results_ascending_by_distance[OF h1 h2 h3 eight_point_by_method]
    by (intro conjI)
qed

section \<open>The parameters of the bucket queries\<close>

lemma emits_check_empty: "emits (forwards qp) (check_empty idx rng)"
  unfolding check_empty_def Let_def
  by (auto split: list.splits
      intro!: emits_mthrow emits_mbind emits_if emits_memit emits_mret simp: forwards_def)

lemma emits_query_buckets: "emits (forwards qp) (query_buckets sq idx query rng qp plan)"
proof (induction plan)
  case Nil
  then show ?case by (simp add: emits_mret)
next
  case (Cons index_pair plan)
  show ?case
    unfolding query_buckets.simps
    by (intro emits_mbind emits_checked_at emits_memit emits_mret Cons.IH)
       (simp add: forwards_def)
qed

lemma emits_brute_force: "emits P (brute_force distance idx query a b)"
  by (simp add: brute_force_def emits_mret emits_mthrow)

lemma emits_residue: "emits P (residue distance idx query s e lr)"
  unfolding residue_def
  by (intro emits_if emits_mbind emits_brute_force emits_mret)

lemma emits_fenwick:
  "emits (forwards qp) (fenwick_tree_search srt sq distance idx query rng qp)"
  unfolding fenwick_tree_search_def Let_def
  by (intro emits_mbind emits_if emits_check_empty emits_query_buckets emits_residue emits_mret)

lemma emits_optimized:
  "emits (forwards qp) (optimized_postfiltering_search srt sq distance idx query rng qp)"
proof -
  have v: "emits (forwards qp)
     (case found of None \<Rightarrow> mret ()
      | Some key \<Rightarrow> if verbose qp then memit (VerboseContainingRange a b (c key) (d key)) else mret ())"
    for found :: "(nat \<times> nat) option" and a b c d
    by (cases found) (auto intro!: emits_mret emits_memit simp: forwards_def)
  show ?thesis
    unfolding optimized_postfiltering_search_def Let_def
    by (intro emits_mbind emits_if emits_check_empty emits_fenwick emits_mret v
        emits_unchecked_read emits_checked_at emits_memit)
       (simp add: forwards_def)
qed

text \<open>
  C8. When the scan of \<open>three_split_search\<close> finds a center bucket \<open>(j, b)\<close> and the
  search returns, there is a copy \<open>qp_copy\<close> of the parameters, with
  \<open>final_beam_multiply = 1\<close> and the caller's values in the seven other fields the copy is
  made from, such that: what is returned is the sorted and cut concatenation of the answer
  of the SubIndex of bucket \<open>(j, b)\<close> to the query with \<open>qp_copy\<close>, of the results of the
  left call and of those of the right call; the left and the right call are
  \<open>optimized_postfiltering_search\<close> with the caller's parameters \<open>qp\<close> (made if there is
  space on that side, and contributing nothing otherwise); the trace starts with the query
  of the center bucket with \<open>qp_copy\<close> and goes on with exactly the traces of these two
  calls; and every bucket query in those two traces is given \<open>qp\<close> itself, unchanged by
  the copy. The SubIndex query \<open>sq\<close> is arbitrary, so the parameters it is applied to
  show in what is returned.
\<close>

theorem three_split_forwards_parameters:
  assumes "three_split_scan (bucket_sizes idx) (length (points idx))
             (first_greater_than (filter_values idx) (fst rng))
             (first_greater_than_or_equal_to (filter_values idx) (snd rng))
             (rev [0..<length (bucket_sizes idx)]) = Some (j, b)"
    and "three_split_search srt sq distance idx query rng qp = (Inr results, tr)"
  shows "\<exists>qp_copy left_results left_trace right_results right_trace.
     results = sort_and_cut srt (k qp)
       (sq (spatial_indices idx ! j ! b) query rng qp_copy @ left_results @ right_results) \<and>
     tr = SubIndexQuery j b rng qp_copy # left_trace @ right_trace \<and>
     final_beam_multiply qp_copy = 1 \<and>
     k qp_copy = k qp \<and> beamSize qp_copy = beamSize qp \<and> cut qp_copy = cut qp \<and>
     limit qp_copy = limit qp \<and> degree_limit qp_copy = degree_limit qp \<and>
     postfiltering_max_beam qp_copy = postfiltering_max_beam qp \<and>
     min_query_to_bucket_ratio qp_copy = min_query_to_bucket_ratio qp \<and>
     (Inr left_results, left_trace) =
       (if 0 < size_t_sub (b * (bucket_sizes idx ! j))
                 (first_greater_than (filter_values idx) (fst rng))
        then optimized_postfiltering_search srt sq distance idx query
               (fst rng, filter_values idx ! (b * (bucket_sizes idx ! j))) qp
        else (Inr [], [])) \<and>
     (Inr right_results, right_trace) =
       (if 0 < size_t_sub (first_greater_than_or_equal_to (filter_values idx) (snd rng))
                 (min (b * (bucket_sizes idx ! j) + bucket_sizes idx ! j) (length (points idx)))
        then optimized_postfiltering_search srt sq distance idx query
               (filter_values idx !
                  min (b * (bucket_sizes idx ! j) + bucket_sizes idx ! j) (length (points idx)),
                snd rng) qp
        else (Inr [], [])) \<and>
     list_all (forwards qp) (left_trace @ right_trace)"
proof -
  let ?w = "bucket_sizes idx ! j"
  let ?s = "first_greater_than (filter_values idx) (fst rng)"
  let ?e = "first_greater_than_or_equal_to (filter_values idx) (snd rng)"
  let ?ms = "b * ?w"
  let ?me = "min (?ms + ?w) (length (points idx))"
  let ?c = "QueryParams8 (k qp) (beamSize qp) (cut qp) (limit qp) (degree_limit qp) 1
              (postfiltering_max_beam qp) (min_query_to_bucket_ratio qp)"
  let ?L = "if 0 < size_t_sub ?ms ?s
            then mbind (unchecked_read (filter_values idx) ?ms) (\<lambda>upper.
                   optimized_postfiltering_search srt sq distance idx query (fst rng, upper) qp)
            else mret []"
  let ?R = "if 0 < size_t_sub ?e ?me
            then mbind (unchecked_read (filter_values idx) ?me) (\<lambda>lower.
                   optimized_postfiltering_search srt sq distance idx query (lower, snd rng) qp)
            else mret []"
  have unf: "three_split_search srt sq distance idx query rng qp =
      mbind (checked_at (spatial_indices idx) j) (\<lambda>level.
      mbind (checked_at level b) (\<lambda>si.
      mbind (memit (SubIndexQuery j b rng ?c)) (\<lambda>u.
      mbind (mret (sq si query rng ?c)) (\<lambda>center.
      mbind (unchecked_read (bucket_sizes idx) j) (\<lambda>bucket_size.
        (let middle_start = b * bucket_size;
             middle_end = min (middle_start + bucket_size) (length (points idx));
             left_space = size_t_sub middle_start ?s;
             right_space = size_t_sub ?e middle_end
         in mbind (if left_space > 0
                   then mbind (unchecked_read (filter_values idx) middle_start) (\<lambda>upper.
                          optimized_postfiltering_search srt sq distance idx query (fst rng, upper) qp)
                   else mret []) (\<lambda>left.
            mbind (if right_space > 0
                   then mbind (unchecked_read (filter_values idx) middle_end) (\<lambda>lower.
                          optimized_postfiltering_search srt sq distance idx query (lower, snd rng) qp)
                   else mret []) (\<lambda>right.
            mret (sort_and_cut srt (k qp) (center @ left @ right))))))))))"
    unfolding three_split_search_def Let_def using assms(1) by (simp add: Let_def cong: if_cong)
  from assms(2)[unfolded unf] obtain level t1 t1' where
    a1: "checked_at (spatial_indices idx) j = (Inr level, t1)" and r1: "tr = t1 @ t1'"
    and b1: "mbind (checked_at level b) (\<lambda>si.
      mbind (memit (SubIndexQuery j b rng ?c)) (\<lambda>u.
      mbind (mret (sq si query rng ?c)) (\<lambda>center.
      mbind (unchecked_read (bucket_sizes idx) j) (\<lambda>bucket_size.
        (let middle_start = b * bucket_size;
             middle_end = min (middle_start + bucket_size) (length (points idx));
             left_space = size_t_sub middle_start ?s;
             right_space = size_t_sub ?e middle_end
         in mbind (if left_space > 0
                   then mbind (unchecked_read (filter_values idx) middle_start) (\<lambda>upper.
                          optimized_postfiltering_search srt sq distance idx query (fst rng, upper) qp)
                   else mret []) (\<lambda>left.
            mbind (if right_space > 0
                   then mbind (unchecked_read (filter_values idx) middle_end) (\<lambda>lower.
                          optimized_postfiltering_search srt sq distance idx query (lower, snd rng) qp)
                   else mret []) (\<lambda>right.
            mret (sort_and_cut srt (k qp) (center @ left @ right))))))))) = (Inr results, t1')"
    by (rule mbind_Inr_elim)
  from b1 obtain si t2 t2' where
    a2: "checked_at level b = (Inr si, t2)" and r2: "t1' = t2 @ t2'"
    and b2: "mbind (memit (SubIndexQuery j b rng ?c)) (\<lambda>u.
      mbind (mret (sq si query rng ?c)) (\<lambda>center.
      mbind (unchecked_read (bucket_sizes idx) j) (\<lambda>bucket_size.
        (let middle_start = b * bucket_size;
             middle_end = min (middle_start + bucket_size) (length (points idx));
             left_space = size_t_sub middle_start ?s;
             right_space = size_t_sub ?e middle_end
         in mbind (if left_space > 0
                   then mbind (unchecked_read (filter_values idx) middle_start) (\<lambda>upper.
                          optimized_postfiltering_search srt sq distance idx query (fst rng, upper) qp)
                   else mret []) (\<lambda>left.
            mbind (if right_space > 0
                   then mbind (unchecked_read (filter_values idx) middle_end) (\<lambda>lower.
                          optimized_postfiltering_search srt sq distance idx query (lower, snd rng) qp)
                   else mret []) (\<lambda>right.
            mret (sort_and_cut srt (k qp) (center @ left @ right)))))))) = (Inr results, t2')"
    by (rule mbind_Inr_elim)
  from b2 obtain u t3 t3' where
    a3: "memit (SubIndexQuery j b rng ?c) = (Inr u, t3)" and r3: "t2' = t3 @ t3'"
    and b3: "mbind (unchecked_read (bucket_sizes idx) j) (\<lambda>bucket_size.
        (let middle_start = b * bucket_size;
             middle_end = min (middle_start + bucket_size) (length (points idx));
             left_space = size_t_sub middle_start ?s;
             right_space = size_t_sub ?e middle_end
         in mbind (if left_space > 0
                   then mbind (unchecked_read (filter_values idx) middle_start) (\<lambda>upper.
                          optimized_postfiltering_search srt sq distance idx query (fst rng, upper) qp)
                   else mret []) (\<lambda>left.
            mbind (if right_space > 0
                   then mbind (unchecked_read (filter_values idx) middle_end) (\<lambda>lower.
                          optimized_postfiltering_search srt sq distance idx query (lower, snd rng) qp)
                   else mret []) (\<lambda>right.
            mret (sort_and_cut srt (k qp) (sq si query rng ?c @ left @ right)))))) = (Inr results, t3')"
    by (rule mbind_Inr_elim) simp
  from b3 obtain w t4 t4' where
    a4: "unchecked_read (bucket_sizes idx) j = (Inr w, t4)" and r4: "t3' = t4 @ t4'"
    and b4: "(let middle_start = b * w;
             middle_end = min (middle_start + w) (length (points idx));
             left_space = size_t_sub middle_start ?s;
             right_space = size_t_sub ?e middle_end
         in mbind (if left_space > 0
                   then mbind (unchecked_read (filter_values idx) middle_start) (\<lambda>upper.
                          optimized_postfiltering_search srt sq distance idx query (fst rng, upper) qp)
                   else mret []) (\<lambda>left.
            mbind (if right_space > 0
                   then mbind (unchecked_read (filter_values idx) middle_end) (\<lambda>lower.
                          optimized_postfiltering_search srt sq distance idx query (lower, snd rng) qp)
                   else mret []) (\<lambda>right.
            mret (sort_and_cut srt (k qp) (sq si query rng ?c @ left @ right))))) = (Inr results, t4')"
    by (rule mbind_Inr_elim)
  have w: "w = ?w" and t4: "t4 = []" using a4 by simp_all
  have t1: "t1 = []" using a1 by simp
  have t2: "t2 = []" using a2 by simp
  have t3: "t3 = [SubIndexQuery j b rng ?c]" using a3 by simp
  from b4[unfolded Let_def w] obtain left t5 t5' where
    a5: "?L = (Inr left, t5)" and r5: "t4' = t5 @ t5'"
    and b5: "mbind ?R (\<lambda>right.
            mret (sort_and_cut srt (k qp) (sq si query rng ?c @ left @ right))) = (Inr results, t5')"
    by (rule mbind_Inr_elim)
  from b5 obtain right t6 t6' where
    a6: "?R = (Inr right, t6)" and r6: "t5' = t6 @ t6'"
    and b6: "mret (sort_and_cut srt (k qp) (sq si query rng ?c @ left @ right)) = (Inr results, t6')"
    by (rule mbind_Inr_elim)
  have t6': "t6' = []" using b6 by simp
  have tr: "tr = SubIndexQuery j b rng ?c # t5 @ t6"
    using r1 r2 r3 r4 r5 r6 t1 t2 t3 t4 t6' by simp
  have l: "(Inr left, t5) = (if 0 < size_t_sub ?ms ?s
        then optimized_postfiltering_search srt sq distance idx query
               (fst rng, filter_values idx ! ?ms) qp
        else (Inr [], []))"
  proof (cases "0 < size_t_sub ?ms ?s")
    case True
    with a5 obtain upper ta tb where
      "unchecked_read (filter_values idx) ?ms = (Inr upper, ta)"
      "optimized_postfiltering_search srt sq distance idx query (fst rng, upper) qp = (Inr left, tb)"
      "t5 = ta @ tb"
      by (simp only: if_True) (erule mbind_Inr_elim)
    then show ?thesis using True by simp
  next
    case False
    with a5 show ?thesis by simp
  qed
  have r: "(Inr right, t6) = (if 0 < size_t_sub ?e ?me
        then optimized_postfiltering_search srt sq distance idx query
               (filter_values idx ! ?me, snd rng) qp
        else (Inr [], []))"
  proof (cases "0 < size_t_sub ?e ?me")
    case True
    with a6 obtain lower ta tb where
      "unchecked_read (filter_values idx) ?me = (Inr lower, ta)"
      "optimized_postfiltering_search srt sq distance idx query (lower, snd rng) qp = (Inr right, tb)"
      "t6 = ta @ tb"
      by (simp only: if_True) (erule mbind_Inr_elim)
    then show ?thesis using True by simp
  next
    case False
    with a6 show ?thesis by simp
  qed
  have "emits (forwards qp) (Inr left, t5)" "emits (forwards qp) (Inr right, t6)"
    unfolding l r
    using emits_optimized[of qp srt sq distance idx query]
    by (simp_all add: emits_def)
  then have fw: "list_all (forwards qp) (t5 @ t6)"
    by (simp add: emits_def)
  have si: "si = spatial_indices idx ! j ! b"
    using a1 a2 by simp
  have res: "results = sort_and_cut srt (k qp)
       (sq (spatial_indices idx ! j ! b) query rng ?c @ left @ right)"
    using b6 si by simp
  have fields: "final_beam_multiply ?c = 1 \<and>
     k ?c = k qp \<and> beamSize ?c = beamSize qp \<and> cut ?c = cut qp \<and>
     limit ?c = limit qp \<and> degree_limit ?c = degree_limit qp \<and>
     postfiltering_max_beam ?c = postfiltering_max_beam qp \<and>
     min_query_to_bucket_ratio ?c = min_query_to_bucket_ratio qp"
    by (simp add: QueryParams8_def)
  show ?thesis
    apply (rule exI[of _ ?c], rule exI[of _ left], rule exI[of _ t5],
           rule exI[of _ right], rule exI[of _ t6])
    using res tr fields l r fw by (intro conjI) simp_all
qed

text \<open>
  The theorem at the index of eight points and the range \<open>[1, 6]\<close>: the center is bucket 1
  of level 0, there is no space on the left, and the right call queries bucket 2 of
  level 0 with the caller's parameters.
\<close>

theorem three_split_forwards_parameters_witness:
  "three_split_scan (bucket_sizes eight_point_index) (length (points eight_point_index))
     (first_greater_than (filter_values eight_point_index) (fst (1 :: nat, 6 :: nat)))
     (first_greater_than_or_equal_to (filter_values eight_point_index) (snd (1 :: nat, 6 :: nat)))
     (rev [0..<length (bucket_sizes eight_point_index)]) = Some (0, 1) \<and>
   three_split_search stable_insertion_sort (bucket_query_of eight_point_index)
     squared_l2 eight_point_index [0] (1, 6) example_qp
   = (Inr [(2, Finite 4), (3, Finite 9)],
      [SubIndexQuery 0 1 (1, 6) (example_qp\<lparr>final_beam_multiply := 1\<rparr>),
       SubIndexQuery 0 2 (4, 6) example_qp]) \<and>
   (\<exists>qp_copy left_results left_trace right_results right_trace.
     [(2, Finite 4), (3, Finite 9)] = sort_and_cut stable_insertion_sort (k example_qp)
       (bucket_query_of eight_point_index (spatial_indices eight_point_index ! 0 ! 1) [0]
          (1 :: nat, 6 :: nat) qp_copy @ left_results @ right_results) \<and>
     [SubIndexQuery 0 1 (1, 6) (example_qp\<lparr>final_beam_multiply := 1\<rparr>),
        SubIndexQuery 0 2 (4, 6) example_qp] = SubIndexQuery 0 1 (1 :: nat, 6 :: nat) qp_copy # left_trace @ right_trace \<and>
     final_beam_multiply qp_copy = 1 \<and>
     k qp_copy = k example_qp \<and> beamSize qp_copy = beamSize example_qp \<and> cut qp_copy = cut example_qp \<and>
     limit qp_copy = limit example_qp \<and> degree_limit qp_copy = degree_limit example_qp \<and>
     postfiltering_max_beam qp_copy = postfiltering_max_beam example_qp \<and>
     min_query_to_bucket_ratio qp_copy = min_query_to_bucket_ratio example_qp \<and>
     (Inr left_results, left_trace) =
       (if 0 < size_t_sub (1 * (bucket_sizes eight_point_index ! 0))
                 (first_greater_than (filter_values eight_point_index) (fst (1 :: nat, 6 :: nat)))
        then optimized_postfiltering_search stable_insertion_sort (bucket_query_of eight_point_index) squared_l2 eight_point_index [0]
               (fst (1 :: nat, 6 :: nat), filter_values eight_point_index ! (1 * (bucket_sizes eight_point_index ! 0))) example_qp
        else (Inr [], [])) \<and>
     (Inr right_results, right_trace) =
       (if 0 < size_t_sub (first_greater_than_or_equal_to (filter_values eight_point_index) (snd (1 :: nat, 6 :: nat)))
                 (min (1 * (bucket_sizes eight_point_index ! 0) + bucket_sizes eight_point_index ! 0) (length (points eight_point_index)))
        then optimized_postfiltering_search stable_insertion_sort (bucket_query_of eight_point_index) squared_l2 eight_point_index [0]
               (filter_values eight_point_index !
                  min (1 * (bucket_sizes eight_point_index ! 0) + bucket_sizes eight_point_index ! 0) (length (points eight_point_index)),
                snd (1 :: nat, 6 :: nat)) example_qp
        else (Inr [], [])) \<and>
     list_all (forwards example_qp) (left_trace @ right_trace))"
  using eight_point_scan eight_point_three_split
    three_split_forwards_parameters[OF eight_point_scan eight_point_three_split]
  by (intro conjI)

text \<open>
  The same query with the echoing SubIndex and \<open>k = 4\<close>, the caller's
  \<open>final_beam_multiply\<close> being 3: the two positions of the center bucket come back with 1,
  those of the bucket on the right with 3.
\<close>

lemma three_split_echo:
  "three_split_search stable_insertion_sort echo_bucket_query
     squared_l2 eight_point_index [0] (1, 6) (example_qp\<lparr>k := 4\<rparr>)
   = (Inr [(2, Finite 1), (3, Finite 1), (4, Finite 3), (5, Finite 3)],
      [SubIndexQuery 0 1 (1, 6) (example_qp\<lparr>k := 4, final_beam_multiply := 1\<rparr>),
       SubIndexQuery 0 2 (4, 6) (example_qp\<lparr>k := 4\<rparr>)])"
  by (simp add: search_defs run_defs size_t_defs fixture_defs stable_insertion_sort_def upt_rec
      echo_bucket_query_def)

section \<open>A fenwick plan leaves no position of the window out\<close>

text \<open>
  The planning loop of \<open>fenwick_tree_search\<close> keeps \<open>plan_inv\<close>: seeding adds full
  buckets inside the window, and each later level extends the recorded range by one full
  bucket on either side.
\<close>

lemma size_t_sub_minus:
  assumes "b \<le> a" "a < 2 ^ 64"
  shows "size_t_sub a b = a - b"
proof -
  have b: "b mod 2 ^ 64 = b" using assms by simp
  have "a + 2 ^ 64 - b = (a - b) + 2 ^ 64" using assms(1) by simp
  then have "(a + 2 ^ 64 - b) mod 2 ^ 64 = (a - b) mod 2 ^ 64" by (simp only: mod_add_self2)
  also have "\<dots> = a - b" using assms by simp
  finally show ?thesis by (simp only: size_t_sub_def b)
qed

lemma seed_fold:
  assumes "j < length bss" "0 < bss ! j"
    and "list_all (bucket_fits bss s e) (indices_to_search st)"
    and "(last_range st = (0, 0) \<and> indices_to_search st = []) \<or>
         (\<exists>b. last_range st = (b * (bss ! j), b * (bss ! j) + bss ! j) \<and>
              (j, b) \<in> set (indices_to_search st))"
  shows "list_all (bucket_fits bss s e)
           (indices_to_search (fold (seed_bucket s e j (bss ! j)) cs st)) \<and>
         ((last_range (fold (seed_bucket s e j (bss ! j)) cs st) = (0, 0) \<and>
           indices_to_search (fold (seed_bucket s e j (bss ! j)) cs st) = []) \<or>
          (\<exists>b. last_range (fold (seed_bucket s e j (bss ! j)) cs st)
                 = (b * (bss ! j), b * (bss ! j) + bss ! j) \<and>
               (j, b) \<in> set (indices_to_search (fold (seed_bucket s e j (bss ! j)) cs st))))"
  using assms(3,4)
proof (induction cs arbitrary: st)
  case Nil
  then show ?case by simp
next
  case (Cons c cs)
  let ?w = "bss ! j"
  let ?st = "seed_bucket s e j ?w c st"
  have "list_all (bucket_fits bss s e) (indices_to_search ?st) \<and>
        ((last_range ?st = (0, 0) \<and> indices_to_search ?st = []) \<or>
         (\<exists>b. last_range ?st = (b * ?w, b * ?w + ?w) \<and> (j, b) \<in> set (indices_to_search ?st)))"
  proof (cases "c * ?w \<ge> s \<and> c * ?w + ?w \<le> e")
    case True
    then have st: "?st = \<lparr>indices_to_search = indices_to_search st @ [(j, c)],
                          last_range = (c * ?w, c * ?w + ?w)\<rparr>"
      using assms(2) by (simp add: seed_bucket_def Let_def)
    have "bucket_fits bss s e (j, c)" using True assms(1) by (simp add: bucket_fits_def)
    then show ?thesis unfolding st using Cons.prems(1) by auto
  next
    case False
    then have "?st = st" by (auto simp: seed_bucket_def Let_def)
    then show ?thesis using Cons.prems by auto
  qed
  from Cons.IH[OF conjunct1[OF this] conjunct2[OF this]] show ?case by simp
qed

lemma fenwick_level_inv:
  assumes "j < length bss" "0 < bss ! j" "e < 2 ^ 64"
    and "plan_inv bss s e w st"
    and "last_range st \<noteq> (0, 0) \<longrightarrow> bss ! j dvd w"
  shows "plan_inv bss s e (bss ! j) (fenwick_level bss s e j st)"
proof -
  let ?w = "bss ! j"
  define st1 where "st1 = (if last_range st = (0, 0)
      then fold (seed_bucket s e j ?w) [s div ?w ..< e div ?w] st else st)"
  have fits1: "list_all (bucket_fits bss s e) (indices_to_search st1)"
    and lr1: "last_range st1 = (0, 0) \<and> indices_to_search st1 = [] \<or>
       (s \<le> fst (last_range st1) \<and> fst (last_range st1) < snd (last_range st1) \<and>
        snd (last_range st1) \<le> e \<and> ?w dvd fst (last_range st1) \<and> ?w dvd snd (last_range st1) \<and>
        last_range st1 \<noteq> (0, 0) \<and>
        {fst (last_range st1) ..< snd (last_range st1)}
          \<subseteq> \<Union> (bucket_span bss ` set (indices_to_search st1)))"
  proof -
    show "list_all (bucket_fits bss s e) (indices_to_search st1)"
    proof (cases "last_range st = (0, 0)")
      case True
      then have "indices_to_search st = []" using assms(4) by (simp add: plan_inv_def)
      with True seed_fold[OF assms(1,2), of s e st "[s div ?w ..< e div ?w]"]
      show ?thesis by (simp add: st1_def)
    next
      case False
      then show ?thesis using assms(4) by (simp add: st1_def plan_inv_def)
    qed
    show "last_range st1 = (0, 0) \<and> indices_to_search st1 = [] \<or>
       (s \<le> fst (last_range st1) \<and> fst (last_range st1) < snd (last_range st1) \<and>
        snd (last_range st1) \<le> e \<and> ?w dvd fst (last_range st1) \<and> ?w dvd snd (last_range st1) \<and>
        last_range st1 \<noteq> (0, 0) \<and>
        {fst (last_range st1) ..< snd (last_range st1)}
          \<subseteq> \<Union> (bucket_span bss ` set (indices_to_search st1)))"
    proof (cases "last_range st = (0, 0)")
      case True
      then have e0: "indices_to_search st = []" using assms(4) by (simp add: plan_inv_def)
      from True e0 seed_fold[OF assms(1,2), of s e st "[s div ?w ..< e div ?w]"]
      have f: "list_all (bucket_fits bss s e) (indices_to_search st1)"
        and c: "(last_range st1 = (0, 0) \<and> indices_to_search st1 = []) \<or>
           (\<exists>b. last_range st1 = (b * ?w, b * ?w + ?w) \<and> (j, b) \<in> set (indices_to_search st1))"
        by (simp_all add: st1_def)
      from c show ?thesis
      proof
        assume "last_range st1 = (0, 0) \<and> indices_to_search st1 = []"
        then show ?thesis by simp
      next
        assume "\<exists>b. last_range st1 = (b * ?w, b * ?w + ?w) \<and> (j, b) \<in> set (indices_to_search st1)"
        then obtain b where b: "last_range st1 = (b * ?w, b * ?w + ?w)"
          "(j, b) \<in> set (indices_to_search st1)" by blast
        have "bucket_fits bss s e (j, b)" using f b(2) by (simp add: list_all_iff)
        then have fit: "s \<le> b * ?w" "b * ?w + ?w \<le> e" by (simp_all add: bucket_fits_def)
        have "{b * ?w ..< b * ?w + ?w} \<subseteq> \<Union> (bucket_span bss ` set (indices_to_search st1))"
          using b(2) by (force simp: bucket_span_def)
        then show ?thesis using b(1) fit assms(2) by simp
      qed
    next
      case False
      then have "st1 = st" by (simp add: st1_def)
      moreover have "?w dvd fst (last_range st)" "?w dvd snd (last_range st)"
        using assms(4,5) False by (auto simp: plan_inv_def elim: dvd_trans)
      ultimately show ?thesis using assms(4) False by (simp add: plan_inv_def)
    qed
  qed
  have lvl: "fenwick_level bss s e j st =
     (if last_range st1 = (0, 0) then st1
      else
        (let left_space = size_t_sub (fst (last_range st1)) s;
             right_space = size_t_sub e (snd (last_range st1));
             st2 = (if left_space > ?w
                    then \<lparr>indices_to_search = indices_to_search st1 @
                            [(j, size_t_sub (fst (last_range st1)) ?w div ?w)],
                          last_range = (size_t_sub (fst (last_range st1)) ?w, snd (last_range st1))\<rparr>
                    else st1);
             st3 = (if right_space > ?w
                    then \<lparr>indices_to_search = indices_to_search st2 @
                            [(j, snd (last_range st2) div ?w)],
                          last_range = (fst (last_range st2), snd (last_range st2) + ?w)\<rparr>
                    else st2)
         in st3))"
    by (simp add: fenwick_level_def st1_def Let_def)
  show ?thesis
  proof (cases "last_range st1 = (0, 0)")
    case True
    then show ?thesis using lr1 fits1 by (simp add: lvl plan_inv_def)
  next
    case False
    obtain lo hi where lr: "last_range st1 = (lo, hi)" by (cases "last_range st1")
    from lr1 False lr have p: "s \<le> lo" "lo < hi" "hi \<le> e" "?w dvd lo" "?w dvd hi"
      and sub: "{lo ..< hi} \<subseteq> \<Union> (bucket_span bss ` set (indices_to_search st1))"
      by auto
    have b64: "lo < 2 ^ 64" "hi < 2 ^ 64" using p assms(3) by simp_all
    have ls: "size_t_sub lo s = lo - s" using p b64 by (simp add: size_t_sub_minus)
    have rs: "size_t_sub e hi = e - hi" using p assms(3) by (simp add: size_t_sub_minus)
    define st2 where "st2 = (if lo - s > ?w
        then \<lparr>indices_to_search = indices_to_search st1 @ [(j, size_t_sub lo ?w div ?w)],
              last_range = (size_t_sub lo ?w, hi)\<rparr>
        else st1)"
    define st3 where "st3 = (if e - hi > ?w
        then \<lparr>indices_to_search = indices_to_search st2 @ [(j, snd (last_range st2) div ?w)],
              last_range = (fst (last_range st2), snd (last_range st2) + ?w)\<rparr>
        else st2)"
    have res: "fenwick_level bss s e j st = st3"
      unfolding lvl if_not_P[OF False] by (simp add: lr ls rs Let_def st2_def st3_def)
    \<comment> \<open>the left step\<close>
    have i2: "list_all (bucket_fits bss s e) (indices_to_search st2) \<and>
        s \<le> fst (last_range st2) \<and> fst (last_range st2) < snd (last_range st2) \<and>
        snd (last_range st2) = hi \<and> ?w dvd fst (last_range st2) \<and>
        {fst (last_range st2) ..< hi} \<subseteq> \<Union> (bucket_span bss ` set (indices_to_search st2))"
    proof (cases "lo - s > ?w")
      case True
      then have wl: "?w \<le> lo" by simp
      have sub_w: "size_t_sub lo ?w = lo - ?w" using wl b64 by (simp add: size_t_sub_minus)
      have dv: "?w dvd lo - ?w" using p(4) by (simp add: dvd_diff_nat)
      then have bw: "(lo - ?w) div ?w * ?w = lo - ?w" by simp
      have fit: "bucket_fits bss s e (j, (lo - ?w) div ?w)"
        using True assms(1) p wl by (simp add: bucket_fits_def bw)
      have span: "bucket_span bss (j, (lo - ?w) div ?w) = {lo - ?w ..< lo}"
        using wl by (simp add: bucket_span_def bw)
      have st2: "st2 = \<lparr>indices_to_search = indices_to_search st1 @ [(j, (lo - ?w) div ?w)],
              last_range = (lo - ?w, hi)\<rparr>"
        using True by (simp add: st2_def sub_w)
      have "{lo - ?w ..< hi} \<subseteq> {lo - ?w ..< lo} \<union> {lo ..< hi}" by auto
      then have "{lo - ?w ..< hi}
          \<subseteq> \<Union> (bucket_span bss ` set (indices_to_search st1 @ [(j, (lo - ?w) div ?w)]))"
        using sub span by auto
      moreover have "s \<le> lo - ?w" "lo - ?w < hi" using True p by linarith+
      ultimately show ?thesis
        unfolding st2 using fits1 fit dv by simp
    next
      case False
      then have "st2 = st1" by (simp add: st2_def)
      then show ?thesis using fits1 p sub lr by simp
    qed
    \<comment> \<open>the right step\<close>
    have i3: "list_all (bucket_fits bss s e) (indices_to_search st3) \<and>
        s \<le> fst (last_range st3) \<and> fst (last_range st3) < snd (last_range st3) \<and>
        snd (last_range st3) \<le> e \<and> ?w dvd fst (last_range st3) \<and> ?w dvd snd (last_range st3) \<and>
        {fst (last_range st3) ..< snd (last_range st3)}
          \<subseteq> \<Union> (bucket_span bss ` set (indices_to_search st3))"
    proof (cases "e - hi > ?w")
      case True
      have bw: "hi div ?w * ?w = hi" using p(5) by simp
      have shi: "s \<le> hi" using i2 by simp
      have fit: "bucket_fits bss s e (j, hi div ?w)"
        using True assms(1) shi by (simp add: bucket_fits_def bw)
      have span: "bucket_span bss (j, hi div ?w) = {hi ..< hi + ?w}"
        by (simp add: bucket_span_def bw)
      have st3: "st3 = \<lparr>indices_to_search = indices_to_search st2 @ [(j, hi div ?w)],
              last_range = (fst (last_range st2), hi + ?w)\<rparr>"
        using True i2 by (simp add: st3_def)
      have "{fst (last_range st2) ..< hi + ?w} \<subseteq> {fst (last_range st2) ..< hi} \<union> {hi ..< hi + ?w}"
        by auto
      then have "{fst (last_range st2) ..< hi + ?w}
          \<subseteq> \<Union> (bucket_span bss ` set (indices_to_search st2 @ [(j, hi div ?w)]))"
        using i2 span by auto
      then show ?thesis
        unfolding st3 using i2 fit True p by simp
    next
      case False
      then have "st3 = st2" by (simp add: st3_def)
      then show ?thesis using i2 p by simp
    qed
    have "last_range st3 \<noteq> (0, 0)" using i3 by auto
    then show ?thesis unfolding res plan_inv_def using i3 by simp
  qed
qed

lemma fold_levels_inv:
  assumes "\<forall>j<length bss. 0 < bss ! j"
    and "\<forall>j k. j \<le> k \<and> k < length bss \<longrightarrow> bss ! j dvd bss ! k"
    and "e < 2 ^ 64"
  shows "i \<le> length bss \<Longrightarrow> plan_inv bss s e w st \<Longrightarrow>
     (last_range st \<noteq> (0, 0) \<longrightarrow> (\<forall>j<i. bss ! j dvd w)) \<Longrightarrow>
     \<exists>w'. plan_inv bss s e w' (fold (fenwick_level bss s e) (rev [0..<i]) st)"
proof (induction i arbitrary: st w)
  case 0
  then show ?case by auto
next
  case (Suc i)
  have i: "i < length bss" using Suc.prems(1) by simp
  have pos: "0 < bss ! i" using assms(1) i by simp
  have dv: "last_range st \<noteq> (0, 0) \<longrightarrow> bss ! i dvd w" using Suc.prems(3) by simp
  note inv = fenwick_level_inv[OF i pos assms(3) Suc.prems(2) dv]
  have "\<forall>j<i. bss ! j dvd bss ! i" using assms(2) i by simp
  then have "\<exists>w'. plan_inv bss s e w'
      (fold (fenwick_level bss s e) (rev [0..<i]) (fenwick_level bss s e i st))"
    using Suc.IH[OF _ inv] i by simp
  then show ?case by simp
qed

lemma fenwick_plan_inv:
  assumes "\<forall>j<length bss. 0 < bss ! j"
    and "\<forall>j k. j \<le> k \<and> k < length bss \<longrightarrow> bss ! j dvd bss ! k"
    and "e < 2 ^ 64"
  shows "\<exists>w. plan_inv bss s e w (fenwick_plan bss s e)"
  unfolding fenwick_plan_def
  by (rule fold_levels_inv[OF assms, where w = 0]) (simp_all add: plan_inv_def)

lemma level_loop_indices:
  "level_loop n fv w acc = Inr acc' \<Longrightarrow> 0 < w \<Longrightarrow>
     \<exists>ws. fst acc' = fst acc @ ws \<and>
          snd (snd acc') = snd (snd acc) @
            map (\<lambda>w'. map (make_bucket fv n w') [0..<(n + w' - 1) div w']) ws"
proof (induction n fv w acc rule: level_loop.induct)
  case (1 n fv w acc)
  show ?case
  proof (cases "w < 2 * n")
    case True
    let ?acc2 = "(fst acc @ [w],
                  fst (snd acc) @ [map (\<lambda>bucket_id. bucket_id * w) [0..<(n + w - 1) div w]],
                  snd (snd acc) @ [map (make_bucket fv n w) [0..<(n + w - 1) div w]])"
    have rec: "level_loop n fv (w * 2) ?acc2 = Inr acc'"
      using "1.prems" True by (simp add: level_loop.simps[of n fv w] Let_def)
    have "0 < w * 2" using "1.prems"(2) by simp
    from "1.IH"[OF True _ refl rec this] "1.prems"(2)
    obtain ws where ws: "fst acc' = fst ?acc2 @ ws"
      "snd (snd acc') = snd (snd ?acc2) @
         map (\<lambda>w'. map (make_bucket fv n w') [0..<(n + w' - 1) div w']) ws"
      by auto
    show ?thesis
      by (rule exI[of _ "w # ws"]) (simp add: ws)
  next
    case False
    then have "acc' = acc" using "1.prems" by (simp add: level_loop.simps[of n fv w])
    then show ?thesis by (intro exI[of _ "[]"]) simp
  qed
qed

lemma full_bucket_indices:
  assumes "0 < w" "b * w + w \<le> n"
  shows "b < (n + w - 1) div w"
    and "subset_of_indices (make_bucket fv n w b) = [b * w ..< b * w + w]"
proof -
  have "Suc b * w \<le> n" using assms(2) by (simp add: add.commute)
  then have "Suc b \<le> n div w" using assms(1) by (simp add: less_eq_div_iff_mult_less_eq)
  also have "n div w \<le> (n + w - 1) div w" using assms(1) by (intro div_le_mono) simp
  finally show "b < (n + w - 1) div w" by simp
  have "min w (n - b * w) = w" using assms(2) by simp
  moreover have "map (\<lambda>i. i + b * w) [0..<w] = [b * w ..< b * w + w]"
    using map_add_upt[of "b * w" w] by (simp add: add.commute)
  ultimately show "subset_of_indices (make_bucket fv n w b) = [b * w ..< b * w + w]"
    by (simp add: make_bucket_def Let_def del: map_add_upt)
qed

text \<open>
  Over a built index the positions looked at by \<open>fenwick_tree_search\<close> are, as a set,
  exactly the window: what the missing \<open>break\<close> of the seeding loop costs is that some of
  them are looked at twice, not that any is left out.
\<close>

lemma planned_positions_cover_window:
  assumes "sort_contract srt"
    and "RangeFilterTreeIndex_public srt points_arr filter_arr c = Inr idx"
    and "1 \<le> c" "c < 2 ^ 31" "length (points idx) < 2 ^ 64"
  shows "set (planned_positions idx rng) =
     {first_greater_than (filter_values idx) (fst rng) ..<
      first_greater_than_or_equal_to (filter_values idx) (snd rng)}"
proof -
  let ?bss = "bucket_sizes idx"
  let ?n = "length (points idx)"
  let ?s = "first_greater_than (filter_values idx) (fst rng)"
  let ?e = "first_greater_than_or_equal_to (filter_values idx) (snd rng)"
  let ?plan = "fenwick_plan ?bss ?s ?e"
  let ?F = "\<lambda>w'. map (make_bucket (filter_values idx) ?n w') [0..<(?n + w' - 1) div w']"
  from build_layout[OF assms(1,2)] obtain pts fvs where
    lp: "points idx = map (\<lambda>i. pts ! i) (sorted_index_to_original_point_id idx)"
    and ms: "mset (sorted_index_to_original_point_id idx) = mset [0..<length pts]"
    and ll: "level_loop (length pts) (filter_values idx) (size_t_of_int c) ([], [], [])
       = Inr (bucket_sizes idx, starts idx, spatial_indices idx)"
    by (elim exE conjE) (rule that)
  have n: "length pts = ?n" using mset_eq_length[OF ms] lp by simp
  have sz: "size_t_of_int c = nat c" using assms(3,4) by (simp add: size_t_of_int_def)
  have cpos: "0 < nat c" using assms(3) by simp
  note ll' = ll[unfolded sz n]
  from level_loop_sizes[OF ll' cpos] obtain m where
    bss: "?bss = map (\<lambda>j. nat c * 2 ^ j) [0..<m]" by auto
  have m: "length ?bss = m" using arg_cong[OF bss, of length] by simp
  have pos: "\<forall>j<length ?bss. 0 < ?bss ! j"
    using cpos m by (subst bss) simp
  have dvd: "\<forall>j k. j \<le> k \<and> k < length ?bss \<longrightarrow> ?bss ! j dvd ?bss ! k"
  proof (intro allI impI)
    fix j k assume jk: "j \<le> k \<and> k < length ?bss"
    then have "(2::nat) ^ j dvd 2 ^ k" by (simp add: le_imp_power_dvd)
    then have "nat c * 2 ^ j dvd nat c * 2 ^ k" by (rule mult_dvd_mono[OF dvd_refl])
    moreover have "?bss ! j = nat c * 2 ^ j" "?bss ! k = nat c * 2 ^ k"
      using jk m by (subst bss, simp)+
    ultimately show "?bss ! j dvd ?bss ! k" by simp
  qed
  from level_loop_indices[OF ll' cpos]
  have si: "spatial_indices idx = map ?F ?bss" by auto
  have len: "length (filter_values idx) = ?n"
    using build_filter_values_sorted(2)[OF assms(1,2)] .
  have e_le: "?e \<le> ?n" using first_greater_than_or_equal_to_le[of "filter_values idx" "snd rng"] len by simp
  then have e64: "?e < 2 ^ 64" using assms(5) by simp
  from fenwick_plan_inv[OF pos dvd e64] obtain w where inv: "plan_inv ?bss ?s ?e w ?plan" by blast
  have fits: "list_all (bucket_fits ?bss ?s ?e) (indices_to_search ?plan)"
    using inv by (simp add: plan_inv_def)
  have span: "set (subset_of_indices (spatial_indices idx ! fst p ! snd p)) = bucket_span ?bss p"
    if "p \<in> set (indices_to_search ?plan)" for p
  proof -
    from that fits have f: "fst p < length ?bss" "?s \<le> snd p * (?bss ! fst p)"
      "snd p * (?bss ! fst p) + ?bss ! fst p \<le> ?e"
      by (simp_all add: list_all_iff bucket_fits_def)
    let ?w = "?bss ! fst p"
    have w: "0 < ?w" using pos f(1) by simp
    have full: "snd p * ?w + ?w \<le> ?n" using f(3) e_le by simp
    note fb = full_bucket_indices(1)[OF w full]
      full_bucket_indices(2)[OF w full, of "filter_values idx"]
    have "spatial_indices idx ! fst p ! snd p = make_bucket (filter_values idx) ?n ?w (snd p)"
      using f(1) fb(1) by (simp add: si)
    then show ?thesis using fb(2) by (simp add: bucket_span_def)
  qed
  have buckets: "(\<Union>p\<in>set (indices_to_search ?plan).
                    set (subset_of_indices (spatial_indices idx ! fst p ! snd p)))
               = \<Union> (bucket_span ?bss ` set (indices_to_search ?plan))"
    using span by auto
  have inside: "\<Union> (bucket_span ?bss ` set (indices_to_search ?plan)) \<subseteq> {?s ..< ?e}"
    using fits by (auto simp: list_all_iff bucket_fits_def bucket_span_def)
  show ?thesis
  proof (cases "last_range ?plan = (0, 0)")
    case True
    then have "indices_to_search ?plan = []" using inv by (simp add: plan_inv_def)
    then show ?thesis using True by (simp add: planned_positions_def Let_def)
  next
    case False
    obtain lo hi where lr: "last_range ?plan = (lo, hi)" by (cases "last_range ?plan")
    from inv have "?s \<le> fst (last_range ?plan) \<and> fst (last_range ?plan) < snd (last_range ?plan)
        \<and> snd (last_range ?plan) \<le> ?e
        \<and> {fst (last_range ?plan) ..< snd (last_range ?plan)}
           \<subseteq> \<Union> (bucket_span ?bss ` set (indices_to_search ?plan))"
      unfolding plan_inv_def if_not_P[OF False] by blast
    then have p: "?s \<le> lo" "lo < hi" "hi \<le> ?e"
      and sub: "{lo ..< hi} \<subseteq> \<Union> (bucket_span ?bss ` set (indices_to_search ?plan))"
      unfolding lr fst_conv snd_conv by blast+
    have "set (planned_positions idx rng)
      = \<Union> (bucket_span ?bss ` set (indices_to_search ?plan)) \<union> ({?s ..< lo} \<union> {hi ..< ?e})"
      unfolding planned_positions_def Let_def if_not_P[OF False]
      by (simp add: buckets lr)
    also have "\<dots> = {?s ..< ?e}"
    proof
      show "\<Union> (bucket_span ?bss ` set (indices_to_search ?plan)) \<union> ({?s ..< lo} \<union> {hi ..< ?e})
          \<subseteq> {?s ..< ?e}"
        using inside p by auto
      show "{?s ..< ?e}
          \<subseteq> \<Union> (bucket_span ?bss ` set (indices_to_search ?plan)) \<union> ({?s ..< lo} \<union> {hi ..< ?e})"
      proof
        fix x assume x: "x \<in> {?s ..< ?e}"
        then consider "x < lo" | "lo \<le> x \<and> x < hi" | "hi \<le> x" by linarith
        then show "x \<in> \<Union> (bucket_span ?bss ` set (indices_to_search ?plan)) \<union>
                     ({?s ..< lo} \<union> {hi ..< ?e})"
        proof cases
          case 1
          then show ?thesis using x by simp
        next
          case 2
          then have "x \<in> {lo ..< hi}" by simp
          then show ?thesis using sub by blast
        next
          case 3
          then show ?thesis using x by simp
        qed
      qed
    qed
    finally show ?thesis .
  qed
qed

end
